theory Spec2Isabelle
  imports
    Main
    "HOL-Library.AList"
    "HOL-Library.Char_ord"
    "HOL-Library.List_Lexorder"
    "HOL-Library.Sublist"
begin

section \<open>Python values used by pdf\_platform.py\<close>

text \<open>
  A Python \<open>str\<close> is modelled as a HOL \<open>string\<close>, one \<open>char\<close> per code point; the model
  therefore covers the texts whose code points are below 256.  On that range the character
  classes below are the ones of CPython: \<open>str.strip()\<close> removes the code points 9 to 13,
  28 to 32, 133 and 160, and \<open>str.lower()\<close> (also the folding of \<open>re.IGNORECASE\<close>) moves
  \<open>A\<close> to \<open>Z\<close> and the code points 192 to 222 other than 215 up by 32.

  A Python \<open>dict\<close> keeps its keys in insertion order and stores one value per key: it is
  an association list that is only ever changed with \<open>AList.update\<close>, which overwrites the
  value of a key that is present (in place) and appends a new key at the end.
\<close>

datatype error =
    FileNotFoundError
  | NotADirectoryError
  | ValueError
  | KeyError
  | PdfReadError
  | OSError
  | RegexError
  | SystemExit

type_synonym 'v dict = "(string \<times> 'v) list"

definition dict_comp :: "('a \<Rightarrow> string \<times> 'v) \<Rightarrow> 'a list \<Rightarrow> 'v dict" where
  \<comment> \<open>a dict comprehension \<open>{key(x): val(x) for x in xs}\<close>\<close>
  "dict_comp f xs = fold (\<lambda>x d. AList.update (fst (f x)) (snd (f x)) d) xs []"

definition isspace :: "char \<Rightarrow> bool" where
  "isspace c = (of_char c \<in> {9, 10, 11, 12, 13, 28, 29, 30, 31, 32, 133, 160 :: nat})"

definition strip :: "string \<Rightarrow> string" where
  "strip s = rev (dropWhile isspace (rev (dropWhile isspace s)))"

definition lower_char :: "char \<Rightarrow> char" where
  "lower_char c =
     (let n = of_char c :: nat
      in if (65 \<le> n \<and> n \<le> 90) \<or> (192 \<le> n \<and> n \<le> 222 \<and> n \<noteq> 215)
         then char_of (n + 32) else c)"

definition lower :: "string \<Rightarrow> string" where
  "lower s = map lower_char s"

definition join :: "string \<Rightarrow> string list \<Rightarrow> string" where
  \<comment> \<open>\<open>sep.join(xs)\<close>\<close>
  "join sep xs = (case xs of [] \<Rightarrow> [] | y # ys \<Rightarrow> y @ concat (map (\<lambda>z. sep @ z) ys))"

definition digit_char :: "nat \<Rightarrow> char" where
  "digit_char d = char_of (48 + d)"

fun str_nat :: "nat \<Rightarrow> string" where
  \<comment> \<open>\<open>str(n)\<close> of a non-negative integer\<close>
  "str_nat n = (if n < 10 then [digit_char n] else str_nat (n div 10) @ [digit_char (n mod 10)])"

declare str_nat.simps [simp del]

subsection \<open>Paths\<close>

text \<open>
  A \<open>pathlib.Path\<close> is the list of its components (\<open>Path.parts\<close>) below the working
  directory.  Two paths compare as the lists of their case-normalised components do: the
  components themselves on POSIX, their lower-cased forms on Windows.
\<close>

type_synonym path = "string list"

datatype flavour = Posix | Windows

definition path_name :: "path \<Rightarrow> string" where
  "path_name p = (if p = [] then [] else last p)"

definition rfind :: "char \<Rightarrow> string \<Rightarrow> int" where
  \<comment> \<open>\<open>s.rfind(c)\<close>: the highest index of \<open>c\<close> in \<open>s\<close>, or \<open>-1\<close>\<close>
  "rfind c s =
     (if c \<in> set s then int (length s) - 1 - int (length (takeWhile (\<lambda>d. d \<noteq> c) (rev s)))
      else - 1)"

definition path_suffix :: "path \<Rightarrow> string" where
  "path_suffix p =
     (let name = path_name p; i = rfind CHR ''.'' name
      in if 0 < i \<and> i < int (length name) - 1 then drop (nat i) name else [])"

definition path_str :: "path \<Rightarrow> string" where
  "path_str p = (if p = [] then ''.'' else join ''/'' p)"

definition normcase :: "flavour \<Rightarrow> path \<Rightarrow> path" where
  "normcase fl p = (case fl of Posix \<Rightarrow> p | Windows \<Rightarrow> map lower p)"

subsection \<open>The world outside the program\<close>

text \<open>
  The file system, the PDF library and the platform are parameters of the model.  A PDF is the
  list of its pages; extracting the text of a page raises, returns \<open>None\<close> or returns
  a string.
\<close>

datatype node = File | Directory "string list"

datatype page = Raises | ReturnsNone | Returns string

datatype content = JsonText string | CsvRows "string list list"

record world =
  read_text :: "path \<Rightarrow> error + string"
  node_at :: "path \<Rightarrow> node option"
  pdf_reader :: "path \<Rightarrow> error + page list"
  writable :: "path \<Rightarrow> bool"
  os_flavour :: flavour

subsection \<open>The fragment of the regular expression library that is used\<close>

text \<open>
  \<open>re.escape\<close> puts a backslash before each of the special characters of CPython's table.
  \<open>re.compile\<close> is modelled on the patterns made of ordinary characters, escaped characters
  and the wildcard \<open>.\<close>; any other pattern is outside the fragment and is rejected with
  \<open>RegexError\<close>.  \<open>search\<close> looks for a match starting at any position of the text.
\<close>

datatype atom = Lit char | AnyChar

datatype regex = Regex (ignorecase: bool) (atoms: "atom list")

definition special_chars :: "char list" where
  "special_chars =
     ''()[]{}?'' @ ''*'' @ ''+-|^$'' @ [CHR 0x5C] @ ''.&~# '' @
     [CHR 0x09, CHR 0x0A, CHR 0x0D, CHR 0x0B, CHR 0x0C]"

definition re_escape :: "string \<Rightarrow> string" where
  "re_escape s = concat (map (\<lambda>c. if c \<in> set special_chars then [CHR 0x5C, c] else [c]) s)"

definition is_alnum :: "char \<Rightarrow> bool" where
  "is_alnum c =
     (let n = of_char c :: nat
      in (48 \<le> n \<and> n \<le> 57) \<or> (65 \<le> n \<and> n \<le> 90) \<or> (97 \<le> n \<and> n \<le> 122))"

definition operator_chars :: "char list" where
  "operator_chars = ''()[]{}?'' @ ''*'' @ ''+|^$''"

fun parse_atoms :: "string \<Rightarrow> error + atom list" where
  "parse_atoms [] = Inr []"
| "parse_atoms (c # cs) =
     (if c = CHR 0x5C then
        (case cs of
           [] \<Rightarrow> Inl RegexError
         | d # ds \<Rightarrow>
             if is_alnum d then Inl RegexError
             else (case parse_atoms ds of Inl e \<Rightarrow> Inl e | Inr as \<Rightarrow> Inr (Lit d # as)))
      else if c \<in> set operator_chars then Inl RegexError
      else (case parse_atoms cs of
              Inl e \<Rightarrow> Inl e
            | Inr as \<Rightarrow> Inr ((if c = CHR ''.'' then AnyChar else Lit c) # as)))"

definition re_compile :: "string \<Rightarrow> bool \<Rightarrow> error + regex" where
  "re_compile pattern ic = (case parse_atoms pattern of Inl e \<Rightarrow> Inl e | Inr as \<Rightarrow> Inr (Regex ic as))"

definition atom_matches :: "bool \<Rightarrow> atom \<Rightarrow> char \<Rightarrow> bool" where
  "atom_matches ic a c =
     (case a of
        AnyChar \<Rightarrow> c \<noteq> CHR 0x0A
      | Lit d \<Rightarrow> if ic then lower_char c = lower_char d else c = d)"

fun match_here :: "bool \<Rightarrow> atom list \<Rightarrow> string \<Rightarrow> bool" where
  "match_here ic [] text = True"
| "match_here ic (a # as) [] = False"
| "match_here ic (a # as) (c # cs) = (atom_matches ic a c \<and> match_here ic as cs)"

fun search_from :: "bool \<Rightarrow> atom list \<Rightarrow> string \<Rightarrow> bool" where
  "search_from ic as [] = match_here ic as []"
| "search_from ic as (c # cs) = (match_here ic as (c # cs) \<or> search_from ic as cs)"

definition re_search :: "regex \<Rightarrow> string \<Rightarrow> bool" where
  \<comment> \<open>whether \<open>pat.search(text)\<close> returns a match\<close>
  "re_search pat text = search_from (ignorecase pat) (atoms pat) text"

definition is_sep :: "char \<Rightarrow> bool" where
  "is_sep c = (c = CHR 0x0A \<or> c = CHR '','')"

function re_split :: "string \<Rightarrow> string list" where
  \<comment> \<open>\<open>re.split(r"[\n,]+", text)\<close>\<close>
  "re_split [] = [[]]"
| "re_split (c # cs) =
     (if is_sep c then [] # re_split (dropWhile is_sep cs)
      else (case re_split cs of [] \<Rightarrow> [[c]] | p # ps \<Rightarrow> (c # p) # ps))"
  by pat_completeness auto
termination
  by (relation "measure length") (auto simp: le_imp_less_Suc length_dropWhile_le)

section \<open>The program\<close>

subsection \<open>load\_keywords\<close>

definition load_keywords :: "world \<Rightarrow> path \<Rightarrow> error + string list" where
  "load_keywords w p =
     (case read_text w p of
        Inl e \<Rightarrow> Inl e
      | Inr text \<Rightarrow>
          (let raw = re_split text
           in Inr (map strip (filter (\<lambda>k. strip k \<noteq> []) raw))))"

subsection \<open>search\_pdf\<close>

definition page_text :: "page list \<Rightarrow> nat \<Rightarrow> string" where
  \<comment> \<open>the \<open>try\<close> block of the page loop: \<open>page.extract_text() or ""\<close>, and \<open>""\<close> on an exception\<close>
  "page_text pages i = (case pages ! i of Raises \<Rightarrow> [] | ReturnsNone \<Rightarrow> [] | Returns t \<Rightarrow> t)"

fun compile_patterns :: "string list \<Rightarrow> regex dict \<Rightarrow> error + regex dict" where
  "compile_patterns [] patterns = Inr patterns"
| "compile_patterns (k # ks) patterns =
     (case re_compile (re_escape k) True of
        Inl e \<Rightarrow> Inl e
      | Inr pat \<Rightarrow> compile_patterns ks (AList.update k pat patterns))"

fun match_keywords ::
  "(string \<times> regex) list \<Rightarrow> string \<Rightarrow> nat \<Rightarrow> nat set dict \<Rightarrow> error + nat set dict" where
  "match_keywords [] text i results = Inr results"
| "match_keywords ((k, pat) # items) text i results =
     (if re_search pat text then
        (case map_of results k of
           None \<Rightarrow> Inl KeyError
         | Some pages \<Rightarrow> match_keywords items text i (AList.update k (insert (i + 1) pages) results))
      else match_keywords items text i results)"

fun page_loop ::
  "page list \<Rightarrow> regex dict \<Rightarrow> nat list \<Rightarrow> nat set dict \<Rightarrow> error + nat set dict" where
  "page_loop pages patterns [] results = Inr results"
| "page_loop pages patterns (i # is) results =
     (let text = page_text pages i
      in if text = [] then page_loop pages patterns is results
         else (case match_keywords patterns text i results of
                 Inl e \<Rightarrow> Inl e
               | Inr results' \<Rightarrow> page_loop pages patterns is results'))"

definition search_pdf :: "world \<Rightarrow> path \<Rightarrow> string list \<Rightarrow> error + nat list dict" where
  "search_pdf w file_path keywords =
     (let results = dict_comp (\<lambda>k. (k, {})) keywords
      in case pdf_reader w file_path of
           Inl e \<Rightarrow> Inl e
         | Inr pages \<Rightarrow>
             (let num_pages = length pages
              in case compile_patterns keywords [] of
                   Inl e \<Rightarrow> Inl e
                 | Inr patterns \<Rightarrow>
                     (case page_loop pages patterns [0..<num_pages] results of
                        Inl e \<Rightarrow> Inl e
                      | Inr results' \<Rightarrow>
                          Inr (dict_comp (\<lambda>(k, pages). (k, sorted_list_of_set pages)) results'))))"

subsection \<open>run\_search\<close>

fun run_search_loop ::
  "world \<Rightarrow> path list \<Rightarrow> string list \<Rightarrow> nat list dict dict \<Rightarrow> error + nat list dict dict" where
  "run_search_loop w [] keywords aggregated = Inr aggregated"
| "run_search_loop w (p # ps) keywords aggregated =
     (case search_pdf w p keywords of
        Inl e \<Rightarrow> Inl e
      | Inr r \<Rightarrow> run_search_loop w ps keywords (AList.update (path_name p) r aggregated))"

definition run_search :: "world \<Rightarrow> path list \<Rightarrow> string list \<Rightarrow> error + nat list dict dict" where
  "run_search w pdf_paths keywords = run_search_loop w pdf_paths keywords []"

subsection \<open>write\_json and write\_csv\<close>

text \<open>
  \<open>json.dumps(data, indent=2, ensure_ascii=False)\<close> on a dict of dicts of integer lists.  An
  empty container is written \<open>{}\<close> or \<open>[]\<close>; otherwise every item starts on a line of its
  own, indented by two spaces per nesting level, items are separated by a comma and a key is
  followed by a colon and a space.  In a string the quote, the backslash and the control
  characters are escaped; every other character is written as it is.
\<close>

definition newline_indent :: "nat \<Rightarrow> string" where
  "newline_indent level = CHR 0x0A # replicate (2 * level) CHR '' ''"

definition hex_digit :: "nat \<Rightarrow> char" where
  "hex_digit d = (if d < 10 then char_of (48 + d) else char_of (87 + d))"

definition json_escape_char :: "char \<Rightarrow> string" where
  "json_escape_char c =
     (if c = CHR 0x22 then [CHR 0x5C, CHR 0x22]
      else if c = CHR 0x5C then [CHR 0x5C, CHR 0x5C]
      else if c = CHR 0x0A then [CHR 0x5C, CHR ''n'']
      else if c = CHR 0x0D then [CHR 0x5C, CHR ''r'']
      else if c = CHR 0x09 then [CHR 0x5C, CHR ''t'']
      else if c = CHR 0x08 then [CHR 0x5C, CHR ''b'']
      else if c = CHR 0x0C then [CHR 0x5C, CHR ''f'']
      else if (of_char c :: nat) < 32
        then [CHR 0x5C, CHR ''u'', CHR ''0'', CHR ''0'',
              hex_digit (of_char c div 16), hex_digit (of_char c mod 16)]
      else [c])"

definition json_string :: "string \<Rightarrow> string" where
  "json_string s = CHR 0x22 # concat (map json_escape_char s) @ [CHR 0x22]"

definition json_list :: "nat \<Rightarrow> nat list \<Rightarrow> string" where
  "json_list level xs =
     (if xs = [] then ''[]''
      else ''['' @ newline_indent (level + 1)
           @ join ('','' @ newline_indent (level + 1)) (map str_nat xs)
           @ newline_indent level @ '']'')"

definition json_dict :: "(nat \<Rightarrow> 'v \<Rightarrow> string) \<Rightarrow> nat \<Rightarrow> 'v dict \<Rightarrow> string" where
  "json_dict enc level d =
     (if d = [] then ''{}''
      else ''{'' @ newline_indent (level + 1)
           @ join ('','' @ newline_indent (level + 1))
               (map (\<lambda>(k, v). json_string k @ '': '' @ enc (level + 1) v) d)
           @ newline_indent level @ ''}'')"

definition json_dumps :: "nat list dict dict \<Rightarrow> string" where
  "json_dumps data = json_dict (json_dict json_list) 0 data"

definition write_json ::
  "world \<Rightarrow> nat list dict dict \<Rightarrow> path \<Rightarrow> (path \<times> content) list \<Rightarrow> error + (path \<times> content) list" where
  "write_json w data out_path files =
     (if writable w out_path then Inr (AList.update out_path (JsonText (json_dumps data)) files)
      else Inl OSError)"

text \<open>
  The CSV file is the sequence of the rows handed to \<open>writer.writerow\<close>, each a list of
  fields.
\<close>

definition csv_rows :: "nat list dict dict \<Rightarrow> string list list" where
  "csv_rows data =
     [''filename'', ''keyword'', ''pages''] #
     concat (map (\<lambda>(fname, mapping).
                    map (\<lambda>(kw, pages). [fname, kw, join '', '' (map str_nat pages)]) mapping)
               data)"

definition write_csv ::
  "world \<Rightarrow> nat list dict dict \<Rightarrow> path \<Rightarrow> (path \<times> content) list \<Rightarrow> error + (path \<times> content) list" where
  "write_csv w data out_path files =
     (if writable w out_path then Inr (AList.update out_path (CsvRows (csv_rows data)) files)
      else Inl OSError)"

subsection \<open>gather\_pdf\_paths\<close>

definition gather_pdf_paths :: "world \<Rightarrow> path option \<Rightarrow> path option \<Rightarrow> error + path list" where
  "gather_pdf_paths w dir_arg file_arg =
     (case file_arg of
        Some f \<Rightarrow> (if node_at w f = None then Inl FileNotFoundError else Inr [f])
      | None \<Rightarrow>
          (case dir_arg of
             Some d \<Rightarrow>
               (case node_at w d of
                  None \<Rightarrow> Inl FileNotFoundError
                | Some File \<Rightarrow> Inl NotADirectoryError
                | Some (Directory names) \<Rightarrow>
                    Inr (sort_key (normcase (os_flavour w))
                           (filter (\<lambda>p. lower (path_suffix p) = ''.pdf'')
                              (map (\<lambda>n. d @ [n]) names))))
           | None \<Rightarrow> Inl ValueError))"

subsection \<open>parse\_args and main\<close>

text \<open>
  The command line is the record of the options it gives.  \<open>argparse\<close> exits when the required
  \<open>--keywords-file\<close> is missing and unless exactly one of \<open>--pdf-dir\<close> and \<open>--pdf-file\<close> is
  given.  The field \<open>output_json\<close> holds \<open>args.output\<close>, whose own name is a reserved word
  here.  A run of \<open>main\<close> ends with the lines it printed, the files it wrote and the exception
  that ended it, if any.
\<close>

record argv =
  opt_pdf_dir :: "path option"
  opt_pdf_file :: "path option"
  opt_keywords_file :: "path option"
  opt_output :: "path option"
  opt_output_csv :: "path option"
  opt_output_dir :: "path option"

record args =
  pdf_dir :: "path option"
  pdf_file :: "path option"
  keywords_file :: path
  output_json :: "path option"
  output_csv :: "path option"
  output_dir :: "path option"

definition parse_args :: "argv \<Rightarrow> error + args" where
  "parse_args a =
     (case opt_keywords_file a of
        None \<Rightarrow> Inl SystemExit
      | Some kf \<Rightarrow>
          if (opt_pdf_dir a = None) = (opt_pdf_file a = None) then Inl SystemExit
          else Inr \<lparr>pdf_dir = opt_pdf_dir a, pdf_file = opt_pdf_file a, keywords_file = kf,
                    output_json = opt_output a, output_csv = opt_output_csv a,
                    output_dir = opt_output_dir a\<rparr>)"

record outcome =
  printed :: "string list"
  written :: "(path \<times> content) list"
  raised :: "error option"

definition main :: "world \<Rightarrow> argv \<Rightarrow> outcome" where
  "main w a =
     (case parse_args a of
        Inl e \<Rightarrow> \<lparr>printed = [], written = [], raised = Some e\<rparr>
      | Inr args \<Rightarrow>
     (case load_keywords w (keywords_file args) of
        Inl e \<Rightarrow> \<lparr>printed = [], written = [], raised = Some e\<rparr>
      | Inr keywords \<Rightarrow>
     if keywords = [] then
       \<lparr>printed = [''No keywords found in the keywords file.''], written = [], raised = None\<rparr>
     else
     (case gather_pdf_paths w (pdf_dir args) (pdf_file args) of
        Inl e \<Rightarrow> \<lparr>printed = [], written = [], raised = Some e\<rparr>
      | Inr pdf_paths \<Rightarrow>
     if pdf_paths = [] then
       \<lparr>printed = [''No PDF files found to search.''], written = [], raised = None\<rparr>
     else
     (let line1 = ''Searching '' @ str_nat (length pdf_paths) @ '' PDF(s) for ''
                    @ str_nat (length keywords) @ '' keyword(s)...''
      in
      case run_search w pdf_paths keywords of
        Inl e \<Rightarrow> \<lparr>printed = [line1], written = [], raised = Some e\<rparr>
      | Inr results \<Rightarrow>
     (let out_json =
            (case output_json args of
               Some p \<Rightarrow> p
             | None \<Rightarrow> (case output_dir args of
                          Some d \<Rightarrow> d @ [''search_results.json'']
                        | None \<Rightarrow> [''search_results.json'']))
      in
      case write_json w results out_json [] of
        Inl e \<Rightarrow> \<lparr>printed = [line1], written = [], raised = Some e\<rparr>
      | Inr files1 \<Rightarrow>
     (let line2 = ''JSON results written to: '' @ path_str out_json;
          out_csv =
            (case output_csv args of
               Some p \<Rightarrow> Some p
             | None \<Rightarrow> (case output_dir args of
                          Some d \<Rightarrow> Some (d @ [''search_results.csv''])
                        | None \<Rightarrow> None))
      in
      case out_csv of
        None \<Rightarrow> \<lparr>printed = [line1, line2], written = files1, raised = None\<rparr>
      | Some c \<Rightarrow>
          (case write_csv w results c files1 of
             Inl e \<Rightarrow> \<lparr>printed = [line1, line2], written = files1, raised = Some e\<rparr>
           | Inr files2 \<Rightarrow>
               \<lparr>printed = [line1, line2, ''CSV summary written to: '' @ path_str c],
                written = files2, raised = None\<rparr>)))))))"

section \<open>Notions of the specification\<close>

text \<open>
  The specification speaks of a keyword occurring in a text ignoring case, of the pages a
  keyword matched, of the distinct keywords in the order of their first occurrence, and of
  reading the \<open>pages\<close> field of a CSV row back.  These notions are stated here on their own,
  without reference to the loops of the program.
\<close>

fun weave :: "string list \<Rightarrow> string list \<Rightarrow> string" where
  \<comment> \<open>the pieces of a text put back together with a separator run between neighbours\<close>
  "weave [] seps = []"
| "weave [p] seps = p"
| "weave (p # q # ps) [] = p @ weave (q # ps) []"
| "weave (p # q # ps) (s # seps) = p @ s @ weave (q # ps) seps"

definition occurs_ignoring_case :: "string \<Rightarrow> string \<Rightarrow> bool" where
  "occurs_ignoring_case k t = sublist (lower k) (lower t)"

definition matched_pages :: "page list \<Rightarrow> string \<Rightarrow> nat list" where
  "matched_pages pages k =
     map (\<lambda>i. i + 1)
       (filter (\<lambda>i. page_text pages i \<noteq> [] \<and> occurs_ignoring_case k (page_text pages i))
          [0..<length pages])"

fun first_occurrences :: "'a list \<Rightarrow> 'a list" where
  "first_occurrences [] = []"
| "first_occurrences (x # xs) = x # filter (\<lambda>y. y \<noteq> x) (first_occurrences xs)"

fun split_comma_space :: "string \<Rightarrow> string list" where
  \<comment> \<open>\<open>s.split(", ")\<close>\<close>
  "split_comma_space [] = [[]]"
| "split_comma_space [c] = [[c]]"
| "split_comma_space (c # d # cs) =
     (if c = CHR '','' \<and> d = CHR '' '' then [] # split_comma_space cs
      else (case split_comma_space (d # cs) of [] \<Rightarrow> [[c]] | p # ps \<Rightarrow> (c # p) # ps))"

definition is_digit :: "char \<Rightarrow> bool" where
  "is_digit c = (48 \<le> (of_char c :: nat) \<and> (of_char c :: nat) \<le> 57)"

definition nat_of_str :: "string \<Rightarrow> nat option" where
  \<comment> \<open>\<open>int(s)\<close> on a string of decimal digits\<close>
  "nat_of_str s =
     (if s \<noteq> [] \<and> list_all is_digit s
      then Some (fold (\<lambda>c n. 10 * n + (of_char c - 48)) s 0) else None)"

definition pages_of_field :: "string \<Rightarrow> nat list option" where
  "pages_of_field s = (if s = [] then Some [] else those (map nat_of_str (split_comma_space s)))"

subsection \<open>Reading the JSON report back\<close>

text \<open>
  The report is read back the way \<open>json.loads\<close> reads it, on documents of the shape of the
  report: an object of objects of arrays of non-negative integers.  White space is skipped
  between tokens; a string runs to its closing quote with the escapes of JSON undone and a raw
  control character refused; an integer is a zero or a run of digits not starting with a zero,
  and a fraction or an exponent after it is refused; items are separated by commas; a key
  that occurs again replaces the earlier value, as in a Python \<open>dict\<close>; nothing but white
  space may follow the document.  The scanners return the value read and the rest of the text.
\<close>

definition json_ws :: "char \<Rightarrow> bool" where
  "json_ws c = (c = CHR '' '' \<or> c = CHR 0x09 \<or> c = CHR 0x0A \<or> c = CHR 0x0D)"

definition skip_ws :: "string \<Rightarrow> string" where
  "skip_ws s = dropWhile json_ws s"

definition hex_val :: "char \<Rightarrow> nat option" where
  "hex_val c =
     (let n = of_char c :: nat
      in if 48 \<le> n \<and> n \<le> 57 then Some (n - 48)
         else if 97 \<le> n \<and> n \<le> 102 then Some (n - 87)
         else if 65 \<le> n \<and> n \<le> 70 then Some (n - 55)
         else None)"

definition unescape :: "char \<Rightarrow> char option" where
  "unescape e =
     (if e = CHR 0x22 then Some CHR 0x22
      else if e = CHR 0x5C then Some CHR 0x5C
      else if e = CHR ''/'' then Some CHR ''/''
      else if e = CHR ''b'' then Some CHR 0x08
      else if e = CHR ''f'' then Some CHR 0x0C
      else if e = CHR ''n'' then Some CHR 0x0A
      else if e = CHR ''r'' then Some CHR 0x0D
      else if e = CHR ''t'' then Some CHR 0x09
      else None)"

definition with_first :: "'a \<Rightarrow> ('a list \<times> string) option \<Rightarrow> ('a list \<times> string) option" where
  "with_first x r = map_option (\<lambda>(xs, rest). (x # xs, rest)) r"

fun scan_string :: "string \<Rightarrow> (string \<times> string) option" where
  "scan_string [] = None"
| "scan_string (c # cs) =
     (if c = CHR 0x22 then Some ([], cs)
      else if c = CHR 0x5C then
        (case cs of
           [] \<Rightarrow> None
         | e # rest \<Rightarrow>
             if e = CHR ''u'' then
               (case rest of
                  h1 # h2 # h3 # h4 # rest' \<Rightarrow>
                    (case (hex_val h1, hex_val h2, hex_val h3, hex_val h4) of
                       (Some a, Some b, Some c', Some d) \<Rightarrow>
                         (let n = ((a * 16 + b) * 16 + c') * 16 + d
                          in if n < 256 then with_first (char_of n) (scan_string rest') else None)
                     | _ \<Rightarrow> None)
                | _ \<Rightarrow> None)
             else (case unescape e of
                     None \<Rightarrow> None
                   | Some ch \<Rightarrow> with_first ch (scan_string rest)))
      else if (of_char c :: nat) < 32 then None
      else with_first c (scan_string cs))"

definition scan_int :: "string \<Rightarrow> (nat \<times> string) option" where
  "scan_int s =
     (let ds = (if s \<noteq> [] \<and> hd s = CHR ''0'' then ''0'' else takeWhile is_digit s);
          rest = drop (length ds) s
      in if ds = [] then None
         else if rest \<noteq> [] \<and> hd rest \<in> set ''.eE'' then None
         else Some (fold (\<lambda>c n. 10 * n + (of_char c - 48)) ds 0, rest))"

lemma scan_int_shorter: "scan_int s = Some (n, r) \<Longrightarrow> length r < length s"
  by (cases s) (auto simp: scan_int_def Let_def split: if_splits)

lemma skip_ws_le: "length (skip_ws s) \<le> length s"
  by (simp add: skip_ws_def length_dropWhile_le)

function scan_items :: "string \<Rightarrow> (nat list \<times> string) option" where
  "scan_items s =
     (case scan_int s of
        None \<Rightarrow> None
      | Some (n, r) \<Rightarrow>
          (case skip_ws r of
             [] \<Rightarrow> None
           | c # cs \<Rightarrow>
               if c = CHR '','' then with_first n (scan_items (skip_ws cs))
               else if c = CHR '']'' then Some ([n], cs)
               else None))"
  by pat_completeness auto
termination
proof (relation "measure length")
  show "wf (measure length)" by simp
next
  fix s :: string and x n r c cs
  assume a: "scan_int s = Some x" "(n, r) = x" "skip_ws r = c # cs"
  have "length (skip_ws cs) \<le> length cs" by (rule skip_ws_le)
  also have "length cs < length (skip_ws r)" using a(3) by simp
  also have "\<dots> \<le> length r" by (rule skip_ws_le)
  also have "\<dots> < length s" using a(1,2) scan_int_shorter by auto
  finally show "(skip_ws cs, s) \<in> measure length" by simp
qed

declare scan_items.simps [simp del]

definition scan_list :: "string \<Rightarrow> (nat list \<times> string) option" where
  "scan_list s =
     (case s of
        [] \<Rightarrow> None
      | c # cs \<Rightarrow>
          if c = CHR ''['' then
            (case skip_ws cs of
               [] \<Rightarrow> None
             | d # ds \<Rightarrow> if d = CHR '']'' then Some ([], ds) else scan_items (d # ds))
          else None)"

lemma with_first_SomeD: "with_first x res = Some (k, r) \<Longrightarrow> \<exists>k'. res = Some (k', r)"
  by (auto simp: with_first_def)

lemma scan_string_shorter: "scan_string s = Some (k, r) \<Longrightarrow> length r < length s"
proof (induction "length s" arbitrary: s k r rule: less_induct)
  case less
  show ?case
  proof (cases s)
    case Nil
    with less.prems show ?thesis by simp
  next
    case (Cons c cs)
    have IH: "length r' < length t" if "length t \<le> length cs" "scan_string t = Some (k', r')"
      for t k' r'
      using less.hyps[of t k' r'] that Cons by simp
    from less.prems Cons have run: "scan_string (c # cs) = Some (k, r)" by simp
    show ?thesis
    proof (cases "c = CHR 0x22")
      case True
      with run Cons show ?thesis by simp
    next
      case quote: False
      show ?thesis
      proof (cases "c = CHR 0x5C")
        case False
        with quote run obtain k' where "scan_string cs = Some (k', r)"
          by (auto split: if_splits dest: with_first_SomeD)
        from IH[OF _ this] Cons show ?thesis by simp
      next
        case True
        with quote run obtain e rest where cs: "cs = e # rest"
          by (cases cs) auto
        show ?thesis
        proof (cases "e = CHR ''u''")
          case False
          with True quote run cs obtain k' where "scan_string rest = Some (k', r)"
            by (auto split: option.splits dest: with_first_SomeD)
          from IH[OF _ this] Cons cs show ?thesis by simp
        next
          case u: True
          with True quote run cs obtain h1 h2 h3 h4 rest' k'
            where "rest = h1 # h2 # h3 # h4 # rest'" "scan_string rest' = Some (k', r)"
            by (auto simp: Let_def split: list.splits option.splits if_splits
                  dest: with_first_SomeD)
          from IH[OF _ this(2)] this(1) Cons cs show ?thesis by simp
        qed
      qed
    qed
  qed
qed

function scan_members ::
  "(string \<Rightarrow> ('v \<times> string) option) \<Rightarrow> string \<Rightarrow> ((string \<times> 'v) list \<times> string) option" where
  "scan_members pv s =
     (case s of
        [] \<Rightarrow> None
      | c # cs \<Rightarrow>
          if c \<noteq> CHR 0x22 then None
          else (case scan_string cs of
                  None \<Rightarrow> None
                | Some (k, r) \<Rightarrow>
                    (case skip_ws r of
                       [] \<Rightarrow> None
                     | d # ds \<Rightarrow>
                         if d \<noteq> CHR '':'' then None
                         else (case pv (skip_ws ds) of
                                 None \<Rightarrow> None
                               | Some (v, r2) \<Rightarrow>
                                   if length ds < length r2 then None
                                   else (case skip_ws r2 of
                                           [] \<Rightarrow> None
                                         | e # es \<Rightarrow>
                                             if e = CHR '','' then
                                               with_first (k, v) (scan_members pv (skip_ws es))
                                             else if e = CHR ''}'' then Some ([(k, v)], es)
                                             else None)))))"
  by pat_completeness auto
termination
proof (relation "measure (\<lambda>(pv, s). length s)")
  show "wf (measure (\<lambda>(pv, s). length s))" by simp
next
  fix pv :: "string \<Rightarrow> ('v \<times> string) option" and s :: string
    and c cs x k r d ds y v r2 e es
  assume a: "s = c # cs" "scan_string cs = Some x" "(k, r) = x" "skip_ws r = d # ds"
    "pv (skip_ws ds) = Some y" "(v, r2) = y" "\<not> length ds < length r2" "skip_ws r2 = e # es"
  have "length (skip_ws es) \<le> length es" by (rule skip_ws_le)
  also have "length es < length (skip_ws r2)" using a(8) by simp
  also have "\<dots> \<le> length r2" by (rule skip_ws_le)
  also have "\<dots> \<le> length ds" using a(7) by simp
  also have "\<dots> < length (skip_ws r)" using a(4) by simp
  also have "\<dots> \<le> length r" by (rule skip_ws_le)
  also have "\<dots> < length cs" using a(2,3) scan_string_shorter by auto
  also have "\<dots> < length s" using a(1) by simp
  finally show "((pv, skip_ws es), (pv, s)) \<in> measure (\<lambda>(pv, s). length s)" by simp
qed

declare scan_members.simps [simp del]

definition scan_object ::
  "(string \<Rightarrow> ('v \<times> string) option) \<Rightarrow> string \<Rightarrow> ('v dict \<times> string) option" where
  "scan_object pv s =
     (case s of
        [] \<Rightarrow> None
      | c # cs \<Rightarrow>
          if c = CHR ''{'' then
            (case skip_ws cs of
               [] \<Rightarrow> None
             | d # ds \<Rightarrow>
                 if d = CHR ''}'' then Some ([], ds)
                 else map_option (\<lambda>(kvs, rest). (dict_comp (\<lambda>kv. kv) kvs, rest))
                        (scan_members pv (d # ds)))
          else None)"

definition json_loads :: "string \<Rightarrow> nat list dict dict option" where
  "json_loads s =
     (case scan_object (scan_object scan_list) (skip_ws s) of
        None \<Rightarrow> None
      | Some (data, rest) \<Rightarrow> if skip_ws rest = [] then Some data else None)"

subsection \<open>Invariants of the loops of search\_pdf\<close>

definition fires :: "regex dict \<Rightarrow> string \<Rightarrow> string \<Rightarrow> bool" where
  \<comment> \<open>some pattern stored under the key \<open>k\<close> finds a match in the text\<close>
  "fires pats text k = list_ex (\<lambda>(k', pat). k' = k \<and> re_search pat text) pats"

definition page_hits :: "page list \<Rightarrow> regex dict \<Rightarrow> nat list \<Rightarrow> string \<Rightarrow> nat set" where
  \<comment> \<open>the page numbers that the page loop adds for \<open>k\<close> while it runs over the indices \<open>is\<close>\<close>
  "page_hits pages pats is k =
     (\<lambda>i. i + 1) ` {i \<in> set is. page_text pages i \<noteq> [] \<and> fires pats (page_text pages i) k}"

subsection \<open>A small file system\<close>

definition demo_world :: world where
  "demo_world =
     \<lparr>read_text = (\<lambda>p.
        if p = [''keywords.txt''] then Inr (''Alpha, beta'' @ [CHR 0x0A] @ ''gamma,'')
        else if p = [''twice.txt''] then Inr ''tax,Tax,tax''
        else if p = [''blank.txt''] then Inr ('' '' @ [CHR 0x0A] @ '', '')
        else Inl FileNotFoundError),
      node_at = (\<lambda>p.
        if p = [''pdfs''] then Some (Directory [''B.pdf'', ''a.PDF'', ''c.txt''])
        else if p = [''notes''] then Some (Directory [''readme.txt''])
        else if p \<in> set [[''pdfs'', ''B.pdf''], [''pdfs'', ''a.PDF''], [''pdfs'', ''c.txt''],
                           [''notes'', ''readme.txt''], [''keywords.txt''], [''twice.txt''],
                           [''blank.txt'']]
          then Some File
        else None),
      pdf_reader = (\<lambda>p.
        if p = [''pdfs'', ''a.PDF'']
          then Inr [Returns ''Cover sheet'', Returns ''Invoice 2024'', Returns ''Appendix'']
        else if p = [''pdfs'', ''B.pdf'']
          then Inr [Returns ''tax form a.c'', Raises, Returns ''TAX abc'', ReturnsNone, Returns '''']
        else Inl PdfReadError),
      writable = (\<lambda>p. True),
      os_flavour = Posix\<rparr>"

definition demo_argv :: "path \<Rightarrow> path \<Rightarrow> argv" where
  "demo_argv dir kf =
     \<lparr>opt_pdf_dir = Some dir, opt_pdf_file = None, opt_keywords_file = Some kf,
      opt_output = None, opt_output_csv = None, opt_output_dir = Some [''out'']\<rparr>"

section \<open>Properties of the library fragment\<close>

lemma special_not_alnum: "c \<in> set special_chars \<Longrightarrow> \<not> is_alnum c"
  by (auto simp: special_chars_def is_alnum_def)

lemma operator_special: "c \<in> set operator_chars \<Longrightarrow> c \<in> set special_chars"
  by (auto simp: special_chars_def operator_chars_def)

lemma backslash_special: "CHR 0x5C \<in> set special_chars"
  by (simp add: special_chars_def)

lemma dot_special: "CHR ''.'' \<in> set special_chars"
  by (simp add: special_chars_def)

lemma parse_atoms_escape: "parse_atoms (re_escape k) = Inr (map Lit k)"
proof (induction k)
  case Nil
  then show ?case by (simp add: re_escape_def)
next
  case (Cons c k)
  have step: "re_escape (c # k) = (if c \<in> set special_chars then [CHR 0x5C, c] else [c]) @ re_escape k"
    by (simp add: re_escape_def)
  show ?case
  proof (cases "c \<in> set special_chars")
    case True
    then show ?thesis using Cons special_not_alnum[OF True] by (simp add: step)
  next
    case False
    then have "c \<noteq> CHR 0x5C" "c \<noteq> CHR ''.''" "c \<notin> set operator_chars"
      using backslash_special dot_special operator_special by auto
    then show ?thesis using Cons False by (simp add: step)
  qed
qed

lemma match_here_lits: "match_here True (map Lit k) t \<longleftrightarrow> prefix (lower k) (lower t)"
proof (induction k arbitrary: t)
  case Nil
  then show ?case by (simp add: lower_def)
next
  case (Cons c k)
  then show ?case by (cases t) (auto simp: lower_def atom_matches_def)
qed

lemma search_from_lits: "search_from True (map Lit k) t \<longleftrightarrow> sublist (lower k) (lower t)"
proof (induction t)
  case Nil
  then show ?case by (cases k) (simp_all add: lower_def)
next
  case (Cons c t)
  have "sublist (lower k) (lower (c # t)) \<longleftrightarrow> prefix (lower k) (lower (c # t)) \<or> sublist (lower k) (lower t)"
    by (simp add: lower_def sublist_Cons_right)
  then show ?case using Cons by (simp add: match_here_lits)
qed

lemma update_absent: "k \<notin> fst ` set d \<Longrightarrow> AList.update k v d = d @ [(k, v)]"
  by (induction d) auto

section \<open>Splitting and trimming\<close>

lemma re_split_nonempty: "re_split t \<noteq> []"
  by (induction t rule: re_split.induct) (auto split: list.splits)

lemma re_split_pieces: "p \<in> set (re_split t) \<Longrightarrow> c \<in> set p \<Longrightarrow> \<not> is_sep c"
proof (induction t arbitrary: p rule: re_split.induct)
  case 1
  then show ?case by simp
next
  case (2 d ds)
  show ?case
  proof (cases "is_sep d")
    case True
    with 2(3) have "p = [] \<or> p \<in> set (re_split (dropWhile is_sep ds))" by simp
    with 2(1)[OF True] 2(4) show ?thesis by auto
  next
    case False
    obtain q qs where q: "re_split ds = q # qs"
      using re_split_nonempty by (cases "re_split ds") auto
    with False 2(3) have "p = d # q \<or> p \<in> set qs" by simp
    then show ?thesis
    proof
      assume "p = d # q"
      with 2(4) have "c = d \<or> c \<in> set q" by simp
      then show ?thesis using False 2(2)[OF False, of q] q by auto
    next
      assume "p \<in> set qs"
      then show ?thesis using 2(2)[OF False, of p] 2(4) q by simp
    qed
  qed
qed

lemma weave_cons_first: "weave ((c # p) # ps) seps = c # weave (p # ps) seps"
  by (cases ps; cases seps) simp_all

lemma re_split_weave:
  "\<exists>seps. length seps + 1 = length (re_split t) \<and>
          (\<forall>s \<in> set seps. s \<noteq> [] \<and> (\<forall>c \<in> set s. is_sep c)) \<and>
          weave (re_split t) seps = t"
proof (induction t rule: re_split.induct)
  case 1
  then show ?case by simp
next
  case (2 c cs)
  show ?case
  proof (cases "is_sep c")
    case True
    from 2(1)[OF True] obtain seps where seps:
      "length seps + 1 = length (re_split (dropWhile is_sep cs))"
      "\<forall>s \<in> set seps. s \<noteq> [] \<and> (\<forall>c \<in> set s. is_sep c)"
      "weave (re_split (dropWhile is_sep cs)) seps = dropWhile is_sep cs"
      by blast
    let ?s = "c # takeWhile is_sep cs"
    obtain q qs where q: "re_split (dropWhile is_sep cs) = q # qs"
      using re_split_nonempty by (cases "re_split (dropWhile is_sep cs)") auto
    have "weave (re_split (c # cs)) (?s # seps) = c # cs"
      using True seps(3) q by simp
    moreover have "\<forall>s \<in> set (?s # seps). s \<noteq> [] \<and> (\<forall>c \<in> set s. is_sep c)"
      using True seps(2) by (auto dest: set_takeWhileD)
    moreover have "length (?s # seps) + 1 = length (re_split (c # cs))"
      using True seps(1) by simp
    ultimately show ?thesis by blast
  next
    case False
    from 2(2)[OF False] obtain seps where seps:
      "length seps + 1 = length (re_split cs)"
      "\<forall>s \<in> set seps. s \<noteq> [] \<and> (\<forall>c \<in> set s. is_sep c)"
      "weave (re_split cs) seps = cs"
      by blast
    obtain q qs where q: "re_split cs = q # qs"
      using re_split_nonempty by (cases "re_split cs") auto
    have "weave (re_split (c # cs)) seps = c # cs"
      using False seps(3) q by (simp add: weave_cons_first)
    moreover have "length seps + 1 = length (re_split (c # cs))"
      using False seps(1) q by simp
    ultimately show ?thesis using seps(2) by blast
  qed
qed

lemma strip_subset: "set (strip k) \<subseteq> set k"
  unfolding strip_def by (auto dest!: set_dropWhileD)

lemma strip_ends:
  assumes "xs = [] \<or> \<not> isspace (hd xs)" and "xs = [] \<or> \<not> isspace (last xs)"
  shows "strip xs = xs"
proof -
  have a: "dropWhile isspace xs = xs"
    using assms(1) by (simp only: dropWhile_eq_self_iff)
  have "rev xs = [] \<or> \<not> isspace (hd (rev xs))"
    using assms(2) by (simp add: hd_rev)
  then have b: "dropWhile isspace (rev xs) = rev xs"
    by (simp only: dropWhile_eq_self_iff)
  show ?thesis
    by (simp only: strip_def a b rev_rev_ident)
qed

lemma strip_idem: "strip (strip k) = strip k"
proof (rule strip_ends)
  let ?u = "dropWhile isspace k"
  let ?v = "dropWhile isspace (rev ?u)"
  have v: "strip k = rev ?v"
    by (simp only: strip_def)
  have first: "\<not> isspace (hd (rev ?v))" if ne: "?v \<noteq> []"
  proof -
    have "rev ?u \<noteq> []"
      using ne by (cases "rev ?u") simp_all
    then have une: "?u \<noteq> []"
      by (simp only: rev_is_Nil_conv not_False_eq_True)
    have "rev (takeWhile isspace (rev ?u) @ ?v) = ?u"
      by (simp only: takeWhile_dropWhile_id rev_rev_ident)
    then have "rev ?v @ rev (takeWhile isspace (rev ?u)) = ?u"
      by (simp only: rev_append)
    then have "hd ?u = hd (rev ?v @ rev (takeWhile isspace (rev ?u)))"
      by (rule arg_cong[OF sym])
    also have "\<dots> = hd (rev ?v)"
      using ne by (simp only: hd_append2 rev_is_Nil_conv not_False_eq_True)
    finally have "hd ?u = hd (rev ?v)" .
    with hd_dropWhile[OF une] show ?thesis by simp
  qed
  have lastc: "\<not> isspace (last (rev ?v))" if ne: "?v \<noteq> []"
    using hd_dropWhile[OF ne] by (simp add: last_rev)
  show "strip k = [] \<or> \<not> isspace (hd (strip k))"
    unfolding v using first by (cases "?v = []") (simp_all only: rev.simps simp_thms)
  show "strip k = [] \<or> \<not> isspace (last (strip k))"
    unfolding v using lastc by (cases "?v = []") (simp_all only: rev.simps simp_thms)
qed

section \<open>The result of search\_pdf\<close>

lemma set_first_occurrences: "set (first_occurrences xs) = set xs"
  by (induction xs) auto

lemma distinct_first_occurrences: "distinct (first_occurrences xs)"
  by (induction xs) (auto simp: set_first_occurrences)

lemma fold_update_keys:
  "map fst (fold (\<lambda>k. AList.update k (g k)) ks d) =
     map fst d @ filter (\<lambda>k. k \<notin> fst ` set d) (first_occurrences ks)"
proof (induction ks arbitrary: d)
  case Nil
  then show ?case by simp
next
  case (Cons k ks)
  show ?case
  proof (cases "k \<in> fst ` set d")
    case True
    then have "map fst (AList.update k (g k) d) = map fst d"
      by (simp add: update_keys)
    moreover have "fst ` set (AList.update k (g k) d) = fst ` set d"
      using True by (auto simp: dom_update)
    moreover have "filter (\<lambda>y. y \<notin> fst ` set d) (filter (\<lambda>y. y \<noteq> k) (first_occurrences ks))
        = filter (\<lambda>y. y \<notin> fst ` set d) (first_occurrences ks)"
      using True by (auto intro: filter_cong)
    ultimately show ?thesis using True Cons.IH[of "AList.update k (g k) d"] by simp
  next
    case False
    then have "map fst (AList.update k (g k) d) = map fst d @ [k]"
      by (simp add: update_keys)
    moreover have "fst ` set (AList.update k (g k) d) = insert k (fst ` set d)"
      by (auto simp: dom_update)
    moreover have "filter (\<lambda>y. y \<notin> insert k (fst ` set d)) (first_occurrences ks)
        = filter (\<lambda>y. y \<notin> fst ` set d) (filter (\<lambda>y. y \<noteq> k) (first_occurrences ks))"
      by (auto intro: filter_cong)
    ultimately show ?thesis using False Cons.IH[of "AList.update k (g k) d"] by simp
  qed
qed

lemma fold_update_map_of:
  "map_of (fold (\<lambda>k. AList.update k (g k)) ks d) k =
     (if k \<in> set ks then Some (g k) else map_of d k)"
  by (induction ks arbitrary: d) (auto simp: update_conv')

lemma fold_update_distinct:
  "distinct (map fst d) \<Longrightarrow> distinct (map fst (fold (\<lambda>k. AList.update k (g k)) ks d))"
  by (induction ks arbitrary: d) (auto simp: distinct_update)

lemma compile_patterns_fold:
  "compile_patterns ks d = Inr (fold (\<lambda>k. AList.update k (Regex True (map Lit k))) ks d)"
  by (induction ks arbitrary: d) (auto simp: re_compile_def parse_atoms_escape)

lemma fires_Nil: "fires [] text k = False"
  by (simp add: fires_def)

lemma fires_Cons: "fires ((k', pat) # items) text k = (k' = k \<and> re_search pat text \<or> fires items text k)"
  by (simp add: fires_def)

lemma match_keywords_ok:
  assumes "fst ` set pats \<subseteq> fst ` set results"
  shows "\<exists>r. match_keywords pats text i results = Inr r \<and> map fst r = map fst results \<and>
           (\<forall>k. map_of r k =
              map_option (\<lambda>s. if fires pats text k then insert (i + 1) s else s) (map_of results k))"
  using assms
proof (induction pats arbitrary: results)
  case Nil
  then show ?case by (simp add: fires_Nil option.map_ident)
next
  case (Cons kp items)
  obtain k pat where kp: "kp = (k, pat)" by (cases kp)
  from Cons.prems kp have kin: "k \<in> fst ` set results" and sub: "fst ` set items \<subseteq> fst ` set results"
    by auto
  show ?case
  proof (cases "re_search pat text")
    case False
    from Cons.IH[OF sub] obtain r where r: "match_keywords items text i results = Inr r"
      "map fst r = map fst results"
      "\<forall>k. map_of r k = map_option (\<lambda>s. if fires items text k then insert (i + 1) s else s) (map_of results k)"
      by blast
    have "match_keywords (kp # items) text i results = Inr r"
      using False r(1) kp by simp
    moreover have "\<forall>k'. map_of r k' = map_option (\<lambda>s. if fires (kp # items) text k'
                               then insert (i + 1) s else s) (map_of results k')"
      using r(3) False kp by (simp add: fires_Cons)
    ultimately show ?thesis using r(2) by blast
  next
    case True
    from kin obtain pages where pages: "map_of results k = Some pages"
      by (metis domD dom_map_of_conv_image_fst)
    let ?res2 = "AList.update k (insert (i + 1) pages) results"
    have keys2: "map fst ?res2 = map fst results"
      using kin by (simp add: update_keys)
    then have "fst ` set items \<subseteq> fst ` set ?res2"
      using sub by (metis list.set_map)
    from Cons.IH[OF this] obtain r where r: "match_keywords items text i ?res2 = Inr r"
      "map fst r = map fst ?res2"
      "\<forall>k. map_of r k = map_option (\<lambda>s. if fires items text k then insert (i + 1) s else s) (map_of ?res2 k)"
      by blast
    have "match_keywords (kp # items) text i results = Inr r"
      using True r(1) kp pages by simp
    moreover have "map_of r k' = map_option (\<lambda>s. if fires (kp # items) text k'
                               then insert (i + 1) s else s) (map_of results k')" for k'
      using r(3) True kp pages by (cases "k' = k") (simp_all add: update_conv' fires_Cons)
    ultimately show ?thesis using r(2) keys2 by auto
  qed
qed

lemma page_hits_Nil: "page_hits pages pats [] k = {}"
  by (simp add: page_hits_def)

lemma page_hits_Cons:
  "page_hits pages pats (i # is) k =
     (if page_text pages i \<noteq> [] \<and> fires pats (page_text pages i) k then {i + 1} else {})
       \<union> page_hits pages pats is k"
  by (auto simp: page_hits_def)

lemma page_loop_ok:
  assumes "fst ` set pats \<subseteq> fst ` set results"
  shows "\<exists>r. page_loop pages pats is results = Inr r \<and> map fst r = map fst results \<and>
           (\<forall>k. map_of r k = map_option (\<lambda>s. s \<union> page_hits pages pats is k) (map_of results k))"
  using assms
proof (induction "is" arbitrary: results)
  case Nil
  then show ?case by (simp add: page_hits_Nil option.map_ident)
next
  case (Cons i "is")
  show ?case
  proof (cases "page_text pages i = []")
    case True
    from Cons.IH[OF Cons.prems] obtain r where r: "page_loop pages pats is results = Inr r"
      "map fst r = map fst results"
      "\<forall>k. map_of r k = map_option (\<lambda>s. s \<union> page_hits pages pats is k) (map_of results k)"
      by blast
    then show ?thesis using True by (simp add: page_hits_Cons)
  next
    case False
    from match_keywords_ok[OF Cons.prems, of "page_text pages i" i]
    obtain r1 where r1: "match_keywords pats (page_text pages i) i results = Inr r1"
      "map fst r1 = map fst results"
      "\<forall>k. map_of r1 k = map_option (\<lambda>s. if fires pats (page_text pages i) k then insert (i + 1) s else s)
              (map_of results k)"
      by blast
    have "fst ` set pats \<subseteq> fst ` set r1"
      using Cons.prems r1(2) by (metis list.set_map)
    from Cons.IH[OF this] obtain r where r: "page_loop pages pats is r1 = Inr r"
      "map fst r = map fst r1"
      "\<forall>k. map_of r k = map_option (\<lambda>s. s \<union> page_hits pages pats is k) (map_of r1 k)"
      by blast
    have "page_loop pages pats (i # is) results = Inr r"
      using False r1(1) r(1) by simp
    moreover have "map_of r k = map_option (\<lambda>s. s \<union> page_hits pages pats (i # is) k) (map_of results k)" for k
      using r(3) r1(3) False by (cases "map_of results k") (auto simp: page_hits_Cons)
    ultimately show ?thesis using r(2) r1(2) by auto
  qed
qed

lemma fold_update_fresh:
  "distinct (map fst xs) \<Longrightarrow> fst ` set acc \<inter> fst ` set xs = {} \<Longrightarrow>
   fold (\<lambda>x d. AList.update (fst x) (h (snd x)) d) xs acc = acc @ map (\<lambda>x. (fst x, h (snd x))) xs"
proof (induction xs arbitrary: acc)
  case Nil
  then show ?case by simp
next
  case (Cons x xs)
  from Cons.prems have fresh: "fst x \<notin> fst ` set acc" by auto
  then have upd: "AList.update (fst x) (h (snd x)) acc = acc @ [(fst x, h (snd x))]"
    by (rule update_absent)
  have "fst ` set (acc @ [(fst x, h (snd x))]) \<inter> fst ` set xs = {}"
    using Cons.prems by auto
  with Cons.IH[of "acc @ [(fst x, h (snd x))]"] Cons.prems upd show ?case by simp
qed

lemma dict_comp_items:
  assumes "distinct (map fst xs)"
  shows "dict_comp (\<lambda>(k, v). (k, h v)) xs = map (\<lambda>(k, v). (k, h v)) xs"
proof -
  have "dict_comp (\<lambda>(k, v). (k, h v)) xs = fold (\<lambda>x d. AList.update (fst x) (h (snd x)) d) xs []"
    by (simp add: dict_comp_def case_prod_beta)
  also have "\<dots> = [] @ map (\<lambda>x. (fst x, h (snd x))) xs"
    using assms by (intro fold_update_fresh) auto
  finally show ?thesis by (simp add: case_prod_beta)
qed

lemma dict_comp_keys_of_list:
  "dict_comp (\<lambda>k. (k, g k)) ks = fold (\<lambda>k. AList.update k (g k)) ks []"
  by (simp add: dict_comp_def)

lemma fires_compiled:
  "fires (fold (\<lambda>k. AList.update k (Regex True (map Lit k))) ks []) text k
     \<longleftrightarrow> k \<in> set ks \<and> occurs_ignoring_case k text"
proof -
  let ?pats = "fold (\<lambda>k. AList.update k (Regex True (map Lit k))) ks []"
  have d: "distinct (map fst ?pats)"
    by (rule fold_update_distinct) simp
  have "fires ?pats text k \<longleftrightarrow> (\<exists>pat. (k, pat) \<in> set ?pats \<and> re_search pat text)"
    by (auto simp: fires_def list_ex_iff)
  also have "\<dots> \<longleftrightarrow> (\<exists>pat. map_of ?pats k = Some pat \<and> re_search pat text)"
    using d by simp
  also have "\<dots> \<longleftrightarrow> k \<in> set ks \<and> re_search (Regex True (map Lit k)) text"
    by (auto simp: fold_update_map_of)
  also have "\<dots> \<longleftrightarrow> k \<in> set ks \<and> occurs_ignoring_case k text"
    by (simp add: re_search_def search_from_lits occurs_ignoring_case_def)
  finally show ?thesis .
qed

lemma sorted_hits:
  "sorted_list_of_set ((\<lambda>i. i + 1) ` {i \<in> set [0..<n]. P i}) = map (\<lambda>i. i + 1) (filter P [0..<n])"
proof -
  let ?xs = "map (\<lambda>i. i + 1) (filter P [0..<n])"
  have "sorted ?xs"
    by (simp add: sorted_map sorted_wrt_filter) 
  moreover have "distinct ?xs"
    by (simp add: distinct_map inj_on_def)
  moreover have "set ?xs = (\<lambda>i. i + 1) ` {i \<in> set [0..<n]. P i}"
    by auto
  ultimately show ?thesis
    by (metis sorted_list_of_set.idem_if_sorted_distinct)
qed

lemma search_pdf_result:
  assumes "pdf_reader w p = Inr pages"
  shows "\<exists>res. search_pdf w p kws = Inr res \<and> map fst res = first_occurrences kws \<and>
           (\<forall>k. map_of res k = (if k \<in> set kws then Some (matched_pages pages k) else None))"
proof -
  let ?res0 = "fold (\<lambda>k. AList.update k ({} :: nat set)) kws []"
  let ?pats = "fold (\<lambda>k. AList.update k (Regex True (map Lit k))) kws []"
  let ?idx = "[0..<length pages]"
  have keys0: "map fst ?res0 = first_occurrences kws"
    by (simp add: fold_update_keys)
  have keysp: "map fst ?pats = first_occurrences kws"
    by (simp add: fold_update_keys)
  have "fst ` set ?pats \<subseteq> fst ` set ?res0"
    using keys0 keysp by (metis list.set_map order_refl)
  from page_loop_ok[OF this, of pages ?idx]
  obtain r where r: "page_loop pages ?pats ?idx ?res0 = Inr r" "map fst r = map fst ?res0"
    "\<forall>k. map_of r k = map_option (\<lambda>s. s \<union> page_hits pages ?pats ?idx k) (map_of ?res0 k)"
    by blast
  let ?res = "map (\<lambda>(k, v). (k, sorted_list_of_set v)) r"
  have dr: "distinct (map fst r)"
    using r(2) keys0 by (simp add: distinct_first_occurrences)
  have run: "search_pdf w p kws = Inr ?res"
    using assms r(1) dr
    by (simp add: search_pdf_def dict_comp_keys_of_list compile_patterns_fold dict_comp_items)
  have keys: "map fst ?res = first_occurrences kws"
    using r(2) keys0 by (simp add: case_prod_beta comp_def)
  have vals: "map_of ?res k = (if k \<in> set kws then Some (matched_pages pages k) else None)" for k
  proof -
    have "map_of ?res k = map_option sorted_list_of_set (map_of r k)"
      by (simp add: map_of_map)
    also have "\<dots> = (if k \<in> set kws then Some (sorted_list_of_set (page_hits pages ?pats ?idx k)) else None)"
      using r(3) by (simp add: fold_update_map_of)
    also have "\<dots> = (if k \<in> set kws then Some (matched_pages pages k) else None)"
    proof (cases "k \<in> set kws")
      case True
      have "sorted_list_of_set (page_hits pages ?pats ?idx k) = matched_pages pages k"
        unfolding page_hits_def matched_pages_def
        by (simp only: fires_compiled True simp_thms sorted_hits)
      then show ?thesis using True by simp
    next
      case False
      then show ?thesis by simp
    qed
    finally show ?thesis .
  qed
  show ?thesis using run keys vals by blast
qed

lemma matched_pages_strict: "sorted_wrt (<) (matched_pages pages k)"
  unfolding matched_pages_def
  by (simp add: sorted_wrt_map sorted_wrt_filter)

lemma matched_pages_range: "n \<in> set (matched_pages pages k) \<Longrightarrow> 1 \<le> n \<and> n \<le> length pages"
  by (auto simp: matched_pages_def)

lemma alist_from_keys:
  "distinct (map fst xs) \<Longrightarrow> map (\<lambda>k. (k, the (map_of xs k))) (map fst xs) = xs"
proof (induction xs)
  case Nil
  then show ?case by simp
next
  case (Cons x xs)
  obtain a b where x: "x = (a, b)" by (cases x)
  from Cons.prems x have "a \<notin> fst ` set xs" and d: "distinct (map fst xs)" by auto
  then have "map (\<lambda>k. (k, the (map_of ((a, b) # xs) k))) (map fst xs)
      = map (\<lambda>k. (k, the (map_of xs k))) (map fst xs)"
    by (intro map_cong) auto
  with Cons.IH[OF d] x show ?case by simp
qed

lemma search_pdf_closed_form:
  assumes "pdf_reader w p = Inr pages"
  shows "search_pdf w p kws = Inr (map (\<lambda>k. (k, matched_pages pages k)) (first_occurrences kws))"
proof -
  from search_pdf_result[OF assms, of kws] obtain res where
    res: "search_pdf w p kws = Inr res"
    and keys: "map fst res = first_occurrences kws"
    and vals: "\<forall>k. map_of res k = (if k \<in> set kws then Some (matched_pages pages k) else None)"
    by blast
  have "distinct (map fst res)"
    using keys by (simp add: distinct_first_occurrences)
  then have "res = map (\<lambda>k. (k, the (map_of res k))) (map fst res)"
    by (rule alist_from_keys[symmetric])
  also have "\<dots> = map (\<lambda>k. (k, matched_pages pages k)) (first_occurrences kws)"
    unfolding keys using vals by (intro map_cong) (auto simp: set_first_occurrences)
  finally show ?thesis using res by simp
qed

lemma closed_form_lookup:
  "k \<in> set kws \<Longrightarrow>
   map_of (map (\<lambda>k. (k, matched_pages pages k)) (first_occurrences kws)) k
     = Some (matched_pages pages k)"
  by (simp add: map_of_map_restrict set_first_occurrences restrict_map_def)

lemma matched_pages_member:
  "i < length pages \<Longrightarrow>
   i + 1 \<in> set (matched_pages pages k) \<longleftrightarrow>
     page_text pages i \<noteq> [] \<and> occurs_ignoring_case k (page_text pages i)"
  by (auto simp: matched_pages_def)

lemma length_first_occurrences: "length (first_occurrences xs) = card (set xs)"
  by (metis distinct_card distinct_first_occurrences set_first_occurrences)

lemma sublist_lower: "sublist a t \<Longrightarrow> sublist (lower a) (lower t)"
  unfolding sublist_def lower_def by (metis map_append)

lemma path_name_child: "path_name (d @ [n]) = n"
  by (simp add: path_name_def)

section \<open>Rows and fields of the CSV report\<close>

lemma of_char_digit: "d < 10 \<Longrightarrow> (of_char (digit_char d) :: nat) = 48 + d"
  by (simp add: digit_char_def)

lemma is_digit_digit_char: "d < 10 \<Longrightarrow> is_digit (digit_char d)"
  by (simp add: is_digit_def of_char_digit)

lemma str_nat_nonempty: "str_nat n \<noteq> []"
  by (subst str_nat.simps) simp

lemma str_nat_digits: "c \<in> set (str_nat n) \<Longrightarrow> is_digit c"
proof (induction n rule: str_nat.induct)
  case (1 n)
  show ?case
  proof (cases "n < 10")
    case True
    then show ?thesis using 1(2) by (subst (asm) str_nat.simps) (simp add: is_digit_digit_char)
  next
    case False
    from 1(2) have "c \<in> set (str_nat (n div 10)) \<or> c = digit_char (n mod 10)"
      using False by (subst (asm) str_nat.simps) auto
    then show ?thesis using 1(1)[OF False] by (auto simp: is_digit_digit_char)
  qed
qed

lemma str_nat_value: "fold (\<lambda>c m. 10 * m + (of_char c - 48)) (str_nat n) 0 = n"
proof (induction n rule: str_nat.induct)
  case (1 n)
  show ?case
  proof (cases "n < 10")
    case True
    then show ?thesis by (subst str_nat.simps) (simp add: of_char_digit)
  next
    case False
    have "fold (\<lambda>c m. 10 * m + (of_char c - 48)) (str_nat n) 0
        = 10 * fold (\<lambda>c m. 10 * m + (of_char c - 48)) (str_nat (n div 10)) 0 + n mod 10"
      using False by (subst str_nat.simps) (simp add: of_char_digit)
    then show ?thesis using 1[OF False] by simp
  qed
qed

lemma nat_of_str_str_nat: "nat_of_str (str_nat n) = Some n"
  using str_nat_digits[of _ n]
  by (simp add: nat_of_str_def str_nat_nonempty str_nat_value list_all_iff)

lemma those_map_Some: "those (map (\<lambda>x. Some (f x)) xs) = Some (map f xs)"
  by (induction xs) simp_all

lemma split_no_comma: "CHR '','' \<notin> set x \<Longrightarrow> split_comma_space x = [x]"
  by (induction x rule: split_comma_space.induct) auto

lemma split_piece:
  "CHR '','' \<notin> set x \<Longrightarrow> split_comma_space (x @ '', '' @ rest) = x # split_comma_space rest"
proof (induction x)
  case Nil
  then show ?case by simp
next
  case (Cons c x)
  obtain d ds where d: "x @ '', '' @ rest = d # ds"
    by (cases "x @ '', '' @ rest") auto
  from Cons have "split_comma_space (d # ds) = x # split_comma_space rest"
    using d by simp
  moreover from Cons.prems have "c \<noteq> CHR '',''" by auto
  ultimately show ?case using d by simp
qed

lemma join_Cons2: "join sep (x # y # ys) = x @ sep @ join sep (y # ys)"
  by (simp add: join_def)

lemma split_join:
  "xs \<noteq> [] \<Longrightarrow> \<forall>x \<in> set xs. CHR '','' \<notin> set x \<Longrightarrow> split_comma_space (join '', '' xs) = xs"
proof (induction xs rule: induct_list012)
  case 1
  then show ?case by simp
next
  case (2 x)
  then show ?case by (simp add: join_def split_no_comma)
next
  case (3 x y zs)
  have "split_comma_space (join '', '' (x # y # zs)) = x # split_comma_space (join '', '' (y # zs))"
    using 3(4) by (simp only: join_Cons2) (rule split_piece, simp)
  then show ?case using 3 by simp
qed

lemma comma_not_digit: "\<not> is_digit CHR '',''"
  by (simp add: is_digit_def)

lemma join_nonempty: "xs \<noteq> [] \<Longrightarrow> \<forall>x \<in> set xs. x \<noteq> [] \<Longrightarrow> join sep xs \<noteq> []"
  by (cases xs) (auto simp: join_def)

lemma pages_field_roundtrip: "pages_of_field (join '', '' (map str_nat ps)) = Some ps"
proof (cases "ps = []")
  case True
  then show ?thesis by (simp add: pages_of_field_def join_def)
next
  case False
  have nc: "\<forall>x \<in> set (map str_nat ps). CHR '','' \<notin> set x"
    using str_nat_digits comma_not_digit by auto
  have ne: "join '', '' (map str_nat ps) \<noteq> []"
    using False by (intro join_nonempty) (auto simp: str_nat_nonempty)
  have "split_comma_space (join '', '' (map str_nat ps)) = map str_nat ps"
    using False nc by (intro split_join) auto
  then show ?thesis
    using ne by (simp add: pages_of_field_def comp_def nat_of_str_str_nat those_map_Some[of "\<lambda>x. x", simplified])
qed

lemma search_pdf_keys:
  assumes "search_pdf w p kws = Inr r"
  shows "map fst r = first_occurrences kws"
proof (cases "pdf_reader w p")
  case (Inl e)
  then have "search_pdf w p kws = Inl e"
    by (simp add: search_pdf_def)
  with assms show ?thesis by simp
next
  case (Inr pages)
  from search_pdf_closed_form[OF Inr, of kws] assms show ?thesis
    by (auto simp: comp_def)
qed

lemma update_entries:
  "x \<in> set (AList.update k v al) \<Longrightarrow> x = (k, v) \<or> x \<in> set al"
  by (induction al) (auto split: if_splits)

lemma run_search_loop_keys:
  assumes "run_search_loop w ps kws agg = Inr data"
    and "\<forall>x \<in> set agg. map fst (snd x) = first_occurrences kws"
  shows "\<forall>x \<in> set data. map fst (snd x) = first_occurrences kws"
  using assms
proof (induction ps arbitrary: agg)
  case Nil
  then show ?case by simp
next
  case (Cons p ps)
  from Cons.prems(1) obtain r where r: "search_pdf w p kws = Inr r"
    and rest: "run_search_loop w ps kws (AList.update (path_name p) r agg) = Inr data"
    by (auto split: sum.splits)
  have "\<forall>x \<in> set (AList.update (path_name p) r agg). map fst (snd x) = first_occurrences kws"
    using Cons.prems(2) search_pdf_keys[OF r] by (auto dest: update_entries)
  from Cons.IH[OF rest this] show ?case .
qed

lemma length_concat_const:
  "\<forall>x \<in> set xs. length (f x) = n \<Longrightarrow> length (concat (map f xs)) = length xs * n"
  by (induction xs) simp_all

section \<open>Scanning what the JSON writer wrote\<close>

lemma skip_ws_keep: "\<not> json_ws c \<Longrightarrow> skip_ws (c # x) = c # x"
  by (simp add: skip_ws_def)

lemma skip_ws_newline_indent: "skip_ws (newline_indent l @ x) = skip_ws x"
proof -
  have "\<forall>c \<in> set (newline_indent l). json_ws c"
    by (auto simp: newline_indent_def json_ws_def)
  then show ?thesis
    unfolding skip_ws_def by (simp add: dropWhile_append2)
qed

lemma with_first_Some: "with_first x (Some (xs, r)) = Some (x # xs, r)"
  by (simp add: with_first_def)

lemma hex_val_hex_digit: "d < 16 \<Longrightarrow> hex_val (hex_digit d) = Some d"
  by (auto simp: hex_val_def hex_digit_def Let_def)

lemma hex_val_zero: "hex_val CHR ''0'' = Some 0"
  by (simp add: hex_val_def)

lemma scan_escaped_char:
  "scan_string (json_escape_char c @ t) = with_first c (scan_string t)"
proof -
  consider (quote) "c = CHR 0x22" | (backslash) "c = CHR 0x5C" | (nl) "c = CHR 0x0A"
    | (cr) "c = CHR 0x0D" | (tab) "c = CHR 0x09" | (bs) "c = CHR 0x08" | (ff) "c = CHR 0x0C"
    | (ctl) "c \<notin> {CHR 0x22, CHR 0x5C, CHR 0x0A, CHR 0x0D, CHR 0x09, CHR 0x08, CHR 0x0C}"
        "(of_char c :: nat) < 32"
    | (plain) "c \<notin> {CHR 0x22, CHR 0x5C, CHR 0x0A, CHR 0x0D, CHR 0x09, CHR 0x08, CHR 0x0C}"
        "\<not> (of_char c :: nat) < 32"
    by blast
  then show ?thesis
  proof cases
    case ctl
    let ?n = "of_char c :: nat"
    have esc: "json_escape_char c
        = [CHR 0x5C, CHR ''u'', CHR ''0'', CHR ''0'', hex_digit (?n div 16), hex_digit (?n mod 16)]"
      using ctl by (simp add: json_escape_char_def)
    have hi: "hex_val (hex_digit (?n div 16)) = Some (?n div 16)"
      using ctl(2) by (intro hex_val_hex_digit) simp
    have lo: "hex_val (hex_digit (?n mod 16)) = Some (?n mod 16)"
      by (intro hex_val_hex_digit) simp
    show ?thesis
      unfolding esc using ctl(2) by (simp add: hex_val_zero hi lo Let_def)
  next
    case plain
    then show ?thesis by (simp add: json_escape_char_def)
  qed (simp_all add: json_escape_char_def unescape_def)
qed

lemma scan_string_escaped:
  "scan_string (concat (map json_escape_char s) @ CHR 0x22 # rest) = Some (s, rest)"
  by (induction s) (simp_all add: scan_escaped_char with_first_Some)

lemma scan_json_string:
  "json_string k @ t = CHR 0x22 # concat (map json_escape_char k) @ CHR 0x22 # t"
  by (simp add: json_string_def)

lemma str_nat_zero: "str_nat 0 = ''0''"
  by code_simp

lemma digit_char_nonzero: "0 < d \<Longrightarrow> d < 10 \<Longrightarrow> digit_char d \<noteq> CHR ''0''"
proof
  assume a: "0 < d" "d < 10" "digit_char d = CHR ''0''"
  then have "(of_char (digit_char d) :: nat) = of_char CHR ''0''" by simp
  with a(1,2) show False by (simp add: of_char_digit)
qed

lemma str_nat_no_leading_zero: "0 < n \<Longrightarrow> hd (str_nat n) \<noteq> CHR ''0''"
proof (induction n rule: str_nat.induct)
  case (1 n)
  show ?case
  proof (cases "n < 10")
    case True
    then show ?thesis using 1(2) by (subst str_nat.simps) (simp add: digit_char_nonzero)
  next
    case False
    then have "0 < n div 10" by simp
    from 1(1)[OF False this] show ?thesis
      using False by (subst str_nat.simps) (simp add: str_nat_nonempty)
  qed
qed

lemma scan_int_str_nat:
  assumes "t = [] \<or> (\<not> is_digit (hd t) \<and> hd t \<notin> set ''.eE'')"
  shows "scan_int (str_nat n @ t) = Some (n, t)"
proof (cases "n = 0")
  case True
  then show ?thesis using assms by (auto simp: scan_int_def str_nat_zero)
next
  case False
  then have nz: "hd (str_nat n) \<noteq> CHR ''0''"
    by (simp add: str_nat_no_leading_zero)
  have hd_eq: "hd (str_nat n @ t) = hd (str_nat n)"
    by (simp add: str_nat_nonempty)
  have "takeWhile is_digit t = []"
    using assms by (cases t) auto
  then have tw: "takeWhile is_digit (str_nat n @ t) = str_nat n"
    using str_nat_digits[of _ n] by (simp add: takeWhile_append2)
  show ?thesis
    using assms nz by (auto simp: scan_int_def hd_eq tw str_nat_nonempty str_nat_value)
qed

lemma digit_not_ws: "is_digit c \<Longrightarrow> \<not> json_ws c"
  by (auto simp: is_digit_def json_ws_def)

lemma skip_ws_str_nat: "skip_ws (str_nat n @ x) = str_nat n @ x"
proof -
  obtain d ds where d: "str_nat n = d # ds"
    using str_nat_nonempty by (cases "str_nat n") auto
  then have "is_digit d" using str_nat_digits[of d n] by simp
  then show ?thesis using d by (simp add: skip_ws_keep digit_not_ws)
qed

lemma newline_indent_Cons: "newline_indent l = CHR 0x0A # replicate (2 * l) CHR '' ''"
  by (simp add: newline_indent_def)

lemma scan_items_comma:
  "scan_int s = Some (n, CHR '','' # r) \<Longrightarrow> scan_items s = with_first n (scan_items (skip_ws r))"
  by (subst scan_items.simps) (simp add: skip_ws_keep json_ws_def)

lemma scan_items_close:
  "scan_int s = Some (n, r) \<Longrightarrow> skip_ws r = CHR '']'' # r' \<Longrightarrow> scan_items s = Some ([n], r')"
  by (subst scan_items.simps) simp

lemma scan_items_join:
  assumes "ps \<noteq> []"
  shows "scan_items (join ('','' @ newline_indent l') (map str_nat ps)
                       @ newline_indent l @ CHR '']'' # rest) = Some (ps, rest)"
  using assms
proof (induction ps rule: induct_list012)
  case 1
  then show ?case by simp
next
  case (2 p)
  have shape: "join ('','' @ newline_indent l') (map str_nat [p]) @ newline_indent l @ CHR '']'' # rest
      = str_nat p @ newline_indent l @ CHR '']'' # rest"
    by (simp add: join_def)
  have int: "scan_int (str_nat p @ newline_indent l @ CHR '']'' # rest)
      = Some (p, newline_indent l @ CHR '']'' # rest)"
    by (rule scan_int_str_nat) (simp add: newline_indent_Cons is_digit_def)
  have ws: "skip_ws (newline_indent l @ CHR '']'' # rest) = CHR '']'' # rest"
    by (simp add: skip_ws_newline_indent skip_ws_keep json_ws_def)
  show ?case
    unfolding shape by (rule scan_items_close[OF int ws])
next
  case (3 p q ps)
  let ?sep = "'','' @ newline_indent l'"
  let ?tail = "join ?sep (map str_nat (q # ps)) @ newline_indent l @ CHR '']'' # rest"
  have shape: "join ?sep (map str_nat (p # q # ps)) @ newline_indent l @ CHR '']'' # rest
      = str_nat p @ CHR '','' # (newline_indent l' @ ?tail)"
    by (simp add: join_Cons2)
  have int: "scan_int (str_nat p @ CHR '','' # (newline_indent l' @ ?tail))
      = Some (p, CHR '','' # (newline_indent l' @ ?tail))"
    by (rule scan_int_str_nat) (simp add: is_digit_def)
  have "?tail = str_nat q @ drop (length (str_nat q)) ?tail"
    by (cases ps) (simp_all add: join_def)
  then have "skip_ws ?tail = ?tail"
    by (metis skip_ws_str_nat)
  then have ws2: "skip_ws (newline_indent l' @ ?tail) = ?tail"
    by (simp only: skip_ws_newline_indent)
  have ih: "scan_items ?tail = Some (q # ps, rest)"
    using 3(2) by simp
  have "scan_items (str_nat p @ CHR '','' # (newline_indent l' @ ?tail))
      = with_first p (scan_items (skip_ws (newline_indent l' @ ?tail)))"
    by (rule scan_items_comma[OF int])
  also have "\<dots> = Some (p # q # ps, rest)"
    by (simp only: ws2 ih with_first_Some)
  finally show ?case
    unfolding shape .
qed

lemma scan_list_json_list: "scan_list (json_list l ps @ rest) = Some (ps, rest)"
proof (cases "ps = []")
  case True
  then show ?thesis
    by (simp add: scan_list_def json_list_def skip_ws_keep json_ws_def)
next
  case False
  let ?body = "join ('','' @ newline_indent (l + 1)) (map str_nat ps)
                 @ newline_indent l @ CHR '']'' # rest"
  obtain p ps' where ps: "ps = p # ps'" using False by (cases ps) auto
  obtain d ds where d: "str_nat p = d # ds"
    using str_nat_nonempty by (cases "str_nat p") auto
  then have dig: "is_digit d" using str_nat_digits[of d p] by simp
  have "?body = str_nat p @ drop (length (str_nat p)) ?body"
    unfolding ps by (cases ps') (simp_all add: join_def)
  then obtain x where body: "?body = d # x"
    using d by (metis append_Cons)
  have "skip_ws ?body = ?body"
    unfolding body using dig by (simp add: skip_ws_keep digit_not_ws)
  then have ws: "skip_ws (newline_indent (l + 1) @ ?body) = d # x"
    using body by (simp add: skip_ws_newline_indent)
  have nd: "d \<noteq> CHR '']''"
    using dig by (auto simp: is_digit_def)
  have "scan_items (d # x) = Some (ps, rest)"
    using scan_items_join[OF False, of "l + 1" l rest] body by simp
  then show ?thesis
    using False ws nd by (simp add: scan_list_def json_list_def)
qed

lemma scan_members_item:
  assumes pv: "pv (e @ t) = Some (v, t)"
    and start: "e = c # x" "\<not> json_ws c"
  shows "skip_ws t = CHR '','' # t' \<Longrightarrow>
           scan_members pv (json_string k @ '': '' @ e @ t)
             = with_first (k, v) (scan_members pv (skip_ws t'))"
    and "skip_ws t = CHR ''}'' # t' \<Longrightarrow>
           scan_members pv (json_string k @ '': '' @ e @ t) = Some ([(k, v)], t')"
proof -
  let ?after = "CHR '':'' # CHR '' '' # (e @ t)"
  have shape: "json_string k @ '': '' @ e @ t
      = CHR 0x22 # (concat (map json_escape_char k) @ CHR 0x22 # ?after)"
    by (simp add: json_string_def)
  have key: "scan_string (concat (map json_escape_char k) @ CHR 0x22 # ?after) = Some (k, ?after)"
    by (rule scan_string_escaped)
  have colon: "skip_ws ?after = ?after"
    by (simp add: skip_ws_keep json_ws_def)
  have "skip_ws (CHR '' '' # (e @ t)) = skip_ws (e @ t)"
    by (simp add: skip_ws_def json_ws_def)
  also have "\<dots> = e @ t"
    using start by (simp add: skip_ws_keep)
  finally have val: "pv (skip_ws (CHR '' '' # (e @ t))) = Some (v, t)"
    using pv by simp
  have guard: "\<not> length (CHR '' '' # (e @ t)) < length t"
    by simp
  show "scan_members pv (json_string k @ '': '' @ e @ t)
             = with_first (k, v) (scan_members pv (skip_ws t'))"
    if "skip_ws t = CHR '','' # t'"
    unfolding shape
    by (subst scan_members.simps) (simp add: key colon val that del: skip_ws_def)
  show "scan_members pv (json_string k @ '': '' @ e @ t) = Some ([(k, v)], t')"
    if "skip_ws t = CHR ''}'' # t'"
    unfolding shape
    by (subst scan_members.simps) (simp add: key colon val that)
qed

lemma skip_ws_json_string: "skip_ws (json_string k @ x) = json_string k @ x"
  by (simp add: json_string_def skip_ws_keep json_ws_def)

lemma scan_members_join:
  assumes "kvs \<noteq> []"
    and "\<And>k v t. (k, v) \<in> set kvs \<Longrightarrow> pv (enc v @ t) = Some (v, t)"
    and "\<And>k v. (k, v) \<in> set kvs \<Longrightarrow> \<exists>c x. enc v = c # x \<and> \<not> json_ws c"
  shows "scan_members pv
           (join ('','' @ newline_indent l') (map (\<lambda>(k, v). json_string k @ '': '' @ enc v) kvs)
              @ newline_indent l @ CHR ''}'' # rest) = Some (kvs, rest)"
  using assms
proof (induction kvs rule: induct_list012)
  case 1
  then show ?case by simp
next
  case (2 kv)
  let ?k = "fst kv" and ?v = "snd kv"
  let ?t = "newline_indent l @ CHR ''}'' # rest"
  have shape: "join ('','' @ newline_indent l') (map (\<lambda>(k, v). json_string k @ '': '' @ enc v) [kv]) @ ?t
      = json_string ?k @ '': '' @ enc ?v @ ?t"
    by (simp add: join_def case_prod_beta)
  from "2.prems"(3)[of ?k ?v] obtain c x where e: "enc ?v = c # x" "\<not> json_ws c" by auto
  have pv: "pv (enc ?v @ ?t) = Some (?v, ?t)"
    using "2.prems"(2)[of ?k ?v] by simp
  have ws: "skip_ws ?t = CHR ''}'' # rest"
    by (simp add: skip_ws_newline_indent skip_ws_keep json_ws_def)
  have "scan_members pv (json_string ?k @ '': '' @ enc ?v @ ?t) = Some ([(?k, ?v)], rest)"
    by (rule scan_members_item(2)[where pv = pv and e = "enc ?v" and t = ?t, OF pv e ws])
  then show ?case
    unfolding shape by simp
next
  case (3 kv kv2 kvs)
  let ?k = "fst kv" and ?v = "snd kv"
  let ?item = "\<lambda>(k, v). json_string k @ '': '' @ enc v"
  let ?sep = "'','' @ newline_indent l'"
  let ?tail = "join ?sep (map ?item (kv2 # kvs)) @ newline_indent l @ CHR ''}'' # rest"
  let ?t = "CHR '','' # (newline_indent l' @ ?tail)"
  have shape: "join ?sep (map ?item (kv # kv2 # kvs)) @ newline_indent l @ CHR ''}'' # rest
      = json_string ?k @ '': '' @ enc ?v @ ?t"
    by (simp add: join_Cons2 case_prod_beta)
  from "3.prems"(3)[of ?k ?v] obtain c x where e: "enc ?v = c # x" "\<not> json_ws c" by auto
  have pv: "pv (enc ?v @ ?t) = Some (?v, ?t)"
    using "3.prems"(2)[of ?k ?v] by simp
  have ws: "skip_ws ?t = CHR '','' # (newline_indent l' @ ?tail)"
    by (simp add: skip_ws_keep json_ws_def)
  have "?tail = json_string (fst kv2) @ drop (length (json_string (fst kv2))) ?tail"
    by (cases kvs) (simp_all add: join_def case_prod_beta)
  then have "skip_ws ?tail = ?tail"
    by (metis skip_ws_json_string)
  then have ws2: "skip_ws (newline_indent l' @ ?tail) = ?tail"
    by (simp only: skip_ws_newline_indent)
  have ih: "scan_members pv ?tail = Some (kv2 # kvs, rest)"
  proof (rule "3.IH"(2))
    show "kv2 # kvs \<noteq> []" by simp
    show "pv (enc v' @ t') = Some (v', t')" if "(k', v') \<in> set (kv2 # kvs)" for k' v' t'
      by (rule "3.prems"(2)[of k']) (use that in simp)
    show "\<exists>c x. enc v' = c # x \<and> \<not> json_ws c" if "(k', v') \<in> set (kv2 # kvs)" for k' v'
      by (rule "3.prems"(3)[of k']) (use that in simp)
  qed
  have "scan_members pv (json_string ?k @ '': '' @ enc ?v @ ?t)
      = with_first (?k, ?v) (scan_members pv (skip_ws (newline_indent l' @ ?tail)))"
    by (rule scan_members_item(1)[where pv = pv and e = "enc ?v" and t = ?t, OF pv e ws])
  also have "\<dots> = Some ((?k, ?v) # kv2 # kvs, rest)"
    by (simp only: ws2 ih with_first_Some)
  finally show ?case
    unfolding shape by simp
qed

lemma dict_comp_distinct:
  assumes "distinct (map fst kvs)"
  shows "dict_comp (\<lambda>kv. kv) kvs = kvs"
proof -
  have "fold (\<lambda>x d. AList.update (fst x) ((\<lambda>v. v) (snd x)) d) kvs []
      = [] @ map (\<lambda>x. (fst x, (\<lambda>v. v) (snd x))) kvs"
    using assms by (intro fold_update_fresh) auto
  then show ?thesis by (simp add: dict_comp_def)
qed

lemma scan_object_members:
  assumes "skip_ws cs = CHR 0x22 # x"
    and "scan_members pv (CHR 0x22 # x) = Some (kvs, rest)"
  shows "scan_object pv (CHR ''{'' # cs) = Some (dict_comp (\<lambda>kv. kv) kvs, rest)"
  using assms by (simp add: scan_object_def)

lemma scan_object_json_dict:
  assumes "distinct (map fst d)"
    and "\<And>k v t. (k, v) \<in> set d \<Longrightarrow> pv (enc (l + 1) v @ t) = Some (v, t)"
    and "\<And>k v. (k, v) \<in> set d \<Longrightarrow> \<exists>c x. enc (l + 1) v = c # x \<and> \<not> json_ws c"
  shows "scan_object pv (json_dict enc l d @ rest) = Some (d, rest)"
proof (cases "d = []")
  case True
  then show ?thesis
    by (simp add: scan_object_def json_dict_def skip_ws_keep json_ws_def)
next
  case False
  let ?item = "\<lambda>(k, v). json_string k @ '': '' @ enc (l + 1) v"
  let ?body = "join ('','' @ newline_indent (l + 1)) (map ?item d)
                 @ newline_indent l @ CHR ''}'' # rest"
  obtain k v d' where d: "d = (k, v) # d'" using False by (cases d) auto
  have "?body = json_string k @ drop (length (json_string k)) ?body"
    unfolding d by (cases d') (simp_all add: join_def)
  then obtain x where body: "?body = CHR 0x22 # x"
    by (metis append_Cons json_string_def)
  have ws: "skip_ws (newline_indent (l + 1) @ ?body) = CHR 0x22 # x"
    unfolding skip_ws_newline_indent body by (simp add: skip_ws_keep json_ws_def)
  have "scan_members pv ?body = Some (d, rest)"
    using False assms(2,3) by (intro scan_members_join) auto
  then have mem: "scan_members pv (CHR 0x22 # x) = Some (d, rest)"
    by (simp only: body)
  have shape: "json_dict enc l d @ rest = CHR ''{'' # (newline_indent (l + 1) @ ?body)"
    using False by (simp add: json_dict_def)
  show ?thesis
    unfolding shape
    using scan_object_members[OF ws mem] by (simp only: dict_comp_distinct[OF assms(1)])
qed

lemma json_dict_start: "\<exists>c x. json_dict enc l d = c # x \<and> \<not> json_ws c"
  by (simp add: json_dict_def json_ws_def)

lemma json_list_start: "\<exists>c x. json_list l ps = c # x \<and> \<not> json_ws c"
  by (simp add: json_list_def json_ws_def)

lemma run_search_loop_distinct:
  assumes "run_search_loop w ps kws agg = Inr data" and "distinct (map fst agg)"
  shows "distinct (map fst data)"
  using assms
proof (induction ps arbitrary: agg)
  case Nil
  then show ?case by simp
next
  case (Cons p ps)
  from Cons.prems(1) obtain r where
    rest: "run_search_loop w ps kws (AList.update (path_name p) r agg) = Inr data"
    by (auto split: sum.splits)
  from Cons.IH[OF rest] Cons.prems(2) show ?case
    by (simp add: distinct_update)
qed

lemma run_search_well_formed:
  assumes "run_search w paths kws = Inr data"
  shows "distinct (map fst data)"
    and "\<forall>(fname, mapping) \<in> set data. distinct (map fst mapping)"
proof -
  show "distinct (map fst data)"
    using assms run_search_loop_distinct[of w paths kws "[]" data] by (simp add: run_search_def)
  have "\<forall>x \<in> set data. map fst (snd x) = first_occurrences kws"
    using assms run_search_loop_keys[of w paths kws "[]" data] by (simp add: run_search_def)
  then show "\<forall>(fname, mapping) \<in> set data. distinct (map fst mapping)"
    by (auto simp: distinct_first_occurrences)
qed

lemma json_text_example:
  "json_dumps [(''a.PDF'', [(''tax'', []), (''invoice'', [2, 10])])]
     = ''{'' @ [CHR 0x0A] @ ''  '' @ [CHR 0x22] @ ''a.PDF'' @ [CHR 0x22] @ '': {'' @ [CHR 0x0A]
       @ ''    '' @ [CHR 0x22] @ ''tax'' @ [CHR 0x22] @ '': [],'' @ [CHR 0x0A]
       @ ''    '' @ [CHR 0x22] @ ''invoice'' @ [CHR 0x22] @ '': ['' @ [CHR 0x0A]
       @ ''      2,'' @ [CHR 0x0A]
       @ ''      10'' @ [CHR 0x0A]
       @ ''    ]'' @ [CHR 0x0A]
       @ ''  }'' @ [CHR 0x0A]
       @ ''}''"
  by code_simp

lemma occurs_in_nonempty_text: "k \<noteq> [] \<Longrightarrow> occurs_ignoring_case k t \<Longrightarrow> t \<noteq> []"
  by (auto simp: occurs_ignoring_case_def lower_def)

section \<open>The claims\<close>

text \<open>
  C1.  For every document that opens and every keyword list, \<open>search_pdf\<close> returns a mapping
  in which every supplied keyword is a key, and the value of each keyword is a strictly
  ascending (hence duplicate-free) list of page numbers, each between 1 and the page count
  of the document; the list may be empty.
\<close>

theorem search_pdf_keys_and_pages:
  assumes "pdf_reader w p = Inr pages"
  shows "\<exists>res. search_pdf w p kws = Inr res \<and>
           (\<forall>k \<in> set kws. \<exists>ps. map_of res k = Some ps \<and> sorted_wrt (<) ps \<and>
              (\<forall>n \<in> set ps. 1 \<le> n \<and> n \<le> length pages))"
proof -
  from search_pdf_result[OF assms, of kws] obtain res where
    res: "search_pdf w p kws = Inr res"
    and vals: "\<forall>k. map_of res k = (if k \<in> set kws then Some (matched_pages pages k) else None)"
    by blast
  have "\<exists>ps. map_of res k = Some ps \<and> sorted_wrt (<) ps \<and> (\<forall>n \<in> set ps. 1 \<le> n \<and> n \<le> length pages)"
    if "k \<in> set kws" for k
    using that vals matched_pages_strict[of pages k] matched_pages_range[of _ pages k] by auto
  with res show ?thesis by blast
qed

theorem search_pdf_keys_and_pages_witness:
  "pdf_reader demo_world [''pdfs'', ''B.pdf'']
     = Inr [Returns ''tax form a.c'', Raises, Returns ''TAX abc'', ReturnsNone, Returns ''''] \<and>
   search_pdf demo_world [''pdfs'', ''B.pdf''] [''tax'', ''a.c'', ''form'', ''zebra'']
     = Inr [(''tax'', [1, 3]), (''a.c'', [1]), (''form'', [1]), (''zebra'', [])]"
proof -
  have h: "pdf_reader demo_world [''pdfs'', ''B.pdf'']
     = Inr [Returns ''tax form a.c'', Raises, Returns ''TAX abc'', ReturnsNone, Returns '''']"
    by (simp add: demo_world_def)
  have e: "search_pdf demo_world [''pdfs'', ''B.pdf''] [''tax'', ''a.c'', ''form'', ''zebra'']
     = Inr [(''tax'', [1, 3]), (''a.c'', [1]), (''form'', [1]), (''zebra'', [])]"
    by code_simp
  from search_pdf_keys_and_pages[OF h, of "[''tax'', ''a.c'', ''form'', ''zebra'']"] h e
  show ?thesis by simp
qed

text \<open>
  C2.  A keyword is a non-empty string, as \<open>load_keywords\<close> yields them.  The pattern compiled
  for a keyword consists of the keyword's own characters as literals, whatever they are, matched
  ignoring case.  For every document that opens and every list of keywords, \<open>search_pdf\<close>
  records page \<open>i + 1\<close> for a keyword exactly when the keyword occurs, ignoring case, as a
  contiguous substring of the text extracted from that page.  In particular, for a document of
  three pages where the second page contains \<open>Invoice\<close> and the other two do not contain the
  word in any case, searching for \<open>invoice\<close> yields the mapping of \<open>invoice\<close> to the list
  \<open>[2]\<close>.
\<close>

theorem matching_is_literal_ignoring_case:
  assumes "pdf_reader w p = Inr pages" and "[] \<notin> set kws"
  shows "\<exists>res. search_pdf w p kws = Inr res \<and>
           (\<forall>k \<in> set kws. \<exists>ps. map_of res k = Some ps \<and>
              re_compile (re_escape k) True = Inr (Regex True (map Lit k)) \<and>
              (\<forall>i < length pages. i + 1 \<in> set ps \<longleftrightarrow>
                 occurs_ignoring_case k (page_text pages i))) \<and>
         (length pages = 3 \<and> sublist ''Invoice'' (page_text pages 1) \<and>
          \<not> occurs_ignoring_case ''invoice'' (page_text pages 0) \<and>
          \<not> occurs_ignoring_case ''invoice'' (page_text pages 2)
          \<longrightarrow> search_pdf w p [''invoice''] = Inr [(''invoice'', [2])])"
proof -
  let ?res = "map (\<lambda>k. (k, matched_pages pages k)) (first_occurrences kws)"
  have run: "search_pdf w p kws = Inr ?res"
    by (rule search_pdf_closed_form[OF assms(1)])
  have lit: "re_compile (re_escape k) True = Inr (Regex True (map Lit k))" for k
    by (simp add: re_compile_def parse_atoms_escape)
  have hit: "i + 1 \<in> set (matched_pages pages k) \<longleftrightarrow> occurs_ignoring_case k (page_text pages i)"
    if "k \<in> set kws" and "i < length pages" for k i
  proof -
    from that(1) assms(2) have "k \<noteq> []" by auto
    then have "occurs_ignoring_case k (page_text pages i) \<Longrightarrow> page_text pages i \<noteq> []"
      by (rule occurs_in_nonempty_text)
    with matched_pages_member[OF that(2), of k] show ?thesis by blast
  qed
  have general: "\<forall>k \<in> set kws. \<exists>ps. map_of ?res k = Some ps \<and>
              re_compile (re_escape k) True = Inr (Regex True (map Lit k)) \<and>
              (\<forall>i < length pages. i + 1 \<in> set ps \<longleftrightarrow>
                 occurs_ignoring_case k (page_text pages i))"
    using closed_form_lookup[of _ kws pages] hit lit by blast
  have example: "search_pdf w p [''invoice''] = Inr [(''invoice'', [2])]"
    if len: "length pages = 3" and two: "sublist ''Invoice'' (page_text pages 1)"
      and one: "\<not> occurs_ignoring_case ''invoice'' (page_text pages 0)"
      and three: "\<not> occurs_ignoring_case ''invoice'' (page_text pages 2)"
  proof -
    have low: "lower ''Invoice'' = lower ''invoice''"
      by code_simp
    have occ: "occurs_ignoring_case ''invoice'' (page_text pages 1)"
      using sublist_lower[OF two] by (simp only: occurs_ignoring_case_def low)
    from two have ne: "page_text pages 1 \<noteq> []" by auto
    have idx: "[0..<length pages] = [0, 1, 2]"
      using len by (simp add: upt_rec)
    have "matched_pages pages ''invoice'' = [2]"
      unfolding matched_pages_def idx using occ ne one three by simp
    then show ?thesis
      using search_pdf_closed_form[OF assms(1), of "[''invoice'']"] by simp
  qed
  show ?thesis using run general example by blast
qed

theorem matching_is_literal_ignoring_case_witness:
  "pdf_reader demo_world [''pdfs'', ''a.PDF'']
     = Inr [Returns ''Cover sheet'', Returns ''Invoice 2024'', Returns ''Appendix''] \<and>
   [] \<notin> set [''invoice''] \<and>
   search_pdf demo_world [''pdfs'', ''a.PDF''] [''invoice''] = Inr [(''invoice'', [2])]"
proof -
  let ?pages = "[Returns ''Cover sheet'', Returns ''Invoice 2024'', Returns ''Appendix'']"
  have h: "pdf_reader demo_world [''pdfs'', ''a.PDF''] = Inr ?pages"
    by (simp add: demo_world_def)
  have ne: "[] \<notin> set [''invoice'']"
    by simp
  have pre: "length ?pages = 3 \<and> sublist ''Invoice'' (page_text ?pages 1) \<and>
          \<not> occurs_ignoring_case ''invoice'' (page_text ?pages 0) \<and>
          \<not> occurs_ignoring_case ''invoice'' (page_text ?pages 2)"
    by code_simp
  from matching_is_literal_ignoring_case[OF h ne] pre
  have "search_pdf demo_world [''pdfs'', ''a.PDF''] [''invoice''] = Inr [(''invoice'', [2])]"
    by blast
  with h ne show ?thesis by simp
qed

text \<open>
  C5.  If extracting the text of a page raises, \<open>search_pdf\<close> still returns a mapping for the
  file: the failed page contributes its page number to no keyword, every other page is
  recorded for a keyword exactly as it would be otherwise, and the result is the one obtained
  when the failed page is replaced by a page with empty text.
\<close>

theorem page_failure_is_empty_text:
  assumes "pdf_reader w p = Inr pages" and "i < length pages" and "pages ! i = Raises"
  shows "\<exists>res. search_pdf w p kws = Inr res \<and>
           (\<forall>k ps. map_of res k = Some ps \<longrightarrow> i + 1 \<notin> set ps) \<and>
           (\<forall>k \<in> set kws. \<exists>ps. map_of res k = Some ps \<and>
              (\<forall>j < length pages. j \<noteq> i \<longrightarrow>
                 (j + 1 \<in> set ps \<longleftrightarrow>
                    page_text pages j \<noteq> [] \<and> occurs_ignoring_case k (page_text pages j)))) \<and>
           search_pdf (w\<lparr>pdf_reader := (pdf_reader w)(p := Inr (pages[i := Returns []]))\<rparr>) p kws
             = Inr res"
proof -
  let ?res = "map (\<lambda>k. (k, matched_pages pages k)) (first_occurrences kws)"
  let ?pages' = "pages[i := Returns []]"
  let ?w' = "w\<lparr>pdf_reader := (pdf_reader w)(p := Inr ?pages')\<rparr>"
  have run: "search_pdf w p kws = Inr ?res"
    by (rule search_pdf_closed_form[OF assms(1)])
  have empty: "page_text pages i = []"
    using assms(3) by (simp add: page_text_def)
  have not_in: "i + 1 \<notin> set ps" if "map_of ?res k = Some ps" for k ps
  proof -
    from that have "ps = matched_pages pages k"
      by (auto simp: map_of_map_restrict restrict_map_def split: if_splits)
    then show ?thesis using empty matched_pages_member[OF assms(2), of k] by simp
  qed
  have others: "\<forall>k \<in> set kws. \<exists>ps. map_of ?res k = Some ps \<and>
              (\<forall>j < length pages. j \<noteq> i \<longrightarrow>
                 (j + 1 \<in> set ps \<longleftrightarrow>
                    page_text pages j \<noteq> [] \<and> occurs_ignoring_case k (page_text pages j)))"
    using closed_form_lookup[of _ kws pages] matched_pages_member[of _ pages] by blast
  have same_text: "page_text ?pages' j = page_text pages j" for j
    using assms(2,3) by (cases "j = i") (simp_all add: page_text_def)
  have "matched_pages ?pages' k = matched_pages pages k" for k
    by (simp add: matched_pages_def same_text)
  moreover have "pdf_reader ?w' p = Inr ?pages'"
    by simp
  ultimately have "search_pdf ?w' p kws = Inr ?res"
    using search_pdf_closed_form[of ?w' p ?pages' kws] by simp
  with run not_in others show ?thesis by blast
qed

theorem page_failure_is_empty_text_witness:
  "pdf_reader demo_world [''pdfs'', ''B.pdf'']
     = Inr [Returns ''tax form a.c'', Raises, Returns ''TAX abc'', ReturnsNone, Returns ''''] \<and>
   [Returns ''tax form a.c'', Raises, Returns ''TAX abc'', ReturnsNone, Returns ''''] ! 1 = Raises \<and>
   search_pdf demo_world [''pdfs'', ''B.pdf''] [''tax''] = Inr [(''tax'', [1, 3])] \<and>
   search_pdf
     (demo_world\<lparr>pdf_reader := (pdf_reader demo_world)([''pdfs'', ''B.pdf''] :=
        Inr [Returns ''tax form a.c'', Returns [], Returns ''TAX abc'', ReturnsNone, Returns ''''])\<rparr>)
     [''pdfs'', ''B.pdf''] [''tax''] = Inr [(''tax'', [1, 3])]"
proof -
  let ?pages = "[Returns ''tax form a.c'', Raises, Returns ''TAX abc'', ReturnsNone, Returns '''']"
  have h: "pdf_reader demo_world [''pdfs'', ''B.pdf''] = Inr ?pages"
    by (simp add: demo_world_def)
  have i: "(1::nat) < length ?pages" and r: "?pages ! 1 = Raises"
    by simp_all
  have e: "search_pdf demo_world [''pdfs'', ''B.pdf''] [''tax''] = Inr [(''tax'', [1, 3])]"
    by code_simp
  from page_failure_is_empty_text[OF h i r, of "[''tax'']"] h r e
  show ?thesis by auto
qed



text \<open>
  C3.  For every text read from the keywords file, \<open>load_keywords\<close> returns, in order, the
  trimmed pieces of the text that are not empty, where the pieces are what remains when the
  text is cut at its runs of one or more newline or comma characters: the text is the pieces
  with a non-empty run of separators between neighbours, and no piece contains a separator.
  Hence no entry returned is empty after trimming, and none contains a newline or a comma.
  The content \<open>Alpha, beta\<close>, newline, \<open>gamma,\<close> loads as \<open>Alpha\<close>, \<open>beta\<close>, \<open>gamma\<close>.
\<close>

theorem load_keywords_splits_and_trims:
  assumes "read_text w f = Inr text"
  shows "load_keywords w f = Inr (filter (\<lambda>k. k \<noteq> []) (map strip (re_split text))) \<and>
         (\<forall>p \<in> set (re_split text). CHR 0x0A \<notin> set p \<and> CHR '','' \<notin> set p) \<and>
         (\<exists>seps. length seps + 1 = length (re_split text) \<and>
            (\<forall>s \<in> set seps. s \<noteq> [] \<and> (\<forall>c \<in> set s. c = CHR 0x0A \<or> c = CHR '','')) \<and>
            weave (re_split text) seps = text) \<and>
         (\<exists>kws. load_keywords w f = Inr kws \<and>
            (\<forall>k \<in> set kws. strip k \<noteq> [] \<and> CHR 0x0A \<notin> set k \<and> CHR '','' \<notin> set k)) \<and>
         (text = ''Alpha, beta'' @ [CHR 0x0A] @ ''gamma,''
            \<longrightarrow> load_keywords w f = Inr [''Alpha'', ''beta'', ''gamma''])"
proof -
  let ?kws = "filter (\<lambda>k. k \<noteq> []) (map strip (re_split text))"
  have run: "load_keywords w f = Inr ?kws"
    using assms by (simp add: load_keywords_def filter_map comp_def)
  have pieces: "\<forall>p \<in> set (re_split text). CHR 0x0A \<notin> set p \<and> CHR '','' \<notin> set p"
    using re_split_pieces[of _ "text"] by (auto simp: is_sep_def)
  have runs: "\<exists>seps. length seps + 1 = length (re_split text) \<and>
            (\<forall>s \<in> set seps. s \<noteq> [] \<and> (\<forall>c \<in> set s. c = CHR 0x0A \<or> c = CHR '','')) \<and>
            weave (re_split text) seps = text"
    using re_split_weave[of "text"] by (simp add: is_sep_def)
  have entries: "strip k \<noteq> [] \<and> CHR 0x0A \<notin> set k \<and> CHR '','' \<notin> set k" if "k \<in> set ?kws" for k
  proof -
    from that obtain p where p: "p \<in> set (re_split text)" "k = strip p" "k \<noteq> []"
      by auto
    have "strip k = k"
      by (simp only: p(2) strip_idem)
    moreover have "set k \<subseteq> set p"
      unfolding p(2) by (rule strip_subset)
    ultimately show ?thesis using p(1,3) pieces by auto
  qed
  have ex: "\<exists>kws. load_keywords w f = Inr kws \<and>
            (\<forall>k \<in> set kws. strip k \<noteq> [] \<and> CHR 0x0A \<notin> set k \<and> CHR '','' \<notin> set k)"
    using run entries by blast
  have example: "text = ''Alpha, beta'' @ [CHR 0x0A] @ ''gamma,''
            \<longrightarrow> load_keywords w f = Inr [''Alpha'', ''beta'', ''gamma'']"
  proof
    assume t: "text = ''Alpha, beta'' @ [CHR 0x0A] @ ''gamma,''"
    have "filter (\<lambda>k. k \<noteq> []) (map strip (re_split (''Alpha, beta'' @ [CHR 0x0A] @ ''gamma,'')))
        = [''Alpha'', ''beta'', ''gamma'']"
      by code_simp
    then show "load_keywords w f = Inr [''Alpha'', ''beta'', ''gamma'']"
      using run by (simp only: t)
  qed
  show ?thesis
    by (intro conjI) (rule run pieces runs ex example)+
qed

theorem load_keywords_splits_and_trims_witness:
  "read_text demo_world [''keywords.txt''] = Inr (''Alpha, beta'' @ [CHR 0x0A] @ ''gamma,'') \<and>
   load_keywords demo_world [''keywords.txt''] = Inr [''Alpha'', ''beta'', ''gamma'']"
proof -
  have h: "read_text demo_world [''keywords.txt''] = Inr (''Alpha, beta'' @ [CHR 0x0A] @ ''gamma,'')"
    by (simp add: demo_world_def)
  from load_keywords_splits_and_trims[OF h]
  have "''Alpha, beta'' @ [CHR 0x0A] @ ''gamma,'' = ''Alpha, beta'' @ [CHR 0x0A] @ ''gamma,''
          \<longrightarrow> load_keywords demo_world [''keywords.txt''] = Inr [''Alpha'', ''beta'', ''gamma'']"
    by (elim conjE) assumption
  with h show ?thesis by simp
qed

text \<open>
  C4 (as amended).  In directory mode the resolver returns exactly the direct children of the
  directory whose suffix, lower-cased, is \<open>.pdf\<close>, each once per listing entry, in ascending
  order of their paths.  Paths compare component by component, by code point on POSIX (an upper
  case letter comes before every lower case letter) and by the lower-cased components on
  Windows.  For a directory holding \<open>B.pdf\<close>, \<open>a.PDF\<close> and \<open>c.txt\<close> the resolved list is
  therefore \<open>B.pdf\<close>, \<open>a.PDF\<close> on POSIX, and \<open>a.PDF\<close>, \<open>B.pdf\<close> on Windows.
\<close>

theorem directory_mode_filters_and_sorts:
  assumes "node_at w d = Some (Directory names)"
  shows "\<exists>ps. gather_pdf_paths w (Some d) None = Inr ps \<and>
           set ps = {p \<in> set (map (\<lambda>n. d @ [n]) names). lower (path_suffix p) = ''.pdf''} \<and>
           length ps = length (filter (\<lambda>n. lower (path_suffix (d @ [n])) = ''.pdf'') names) \<and>
           sorted (map (normcase (os_flavour w)) ps) \<and>
           (names = [''B.pdf'', ''a.PDF'', ''c.txt''] \<and> os_flavour w = Posix
              \<longrightarrow> ps = [d @ [''B.pdf''], d @ [''a.PDF'']]) \<and>
           (names = [''B.pdf'', ''a.PDF'', ''c.txt''] \<and> os_flavour w = Windows
              \<longrightarrow> ps = [d @ [''a.PDF''], d @ [''B.pdf'']])"
proof -
  let ?kept = "filter (\<lambda>p. lower (path_suffix p) = ''.pdf'') (map (\<lambda>n. d @ [n]) names)"
  let ?ps = "sort_key (normcase (os_flavour w)) ?kept"
  have run: "gather_pdf_paths w (Some d) None = Inr ?ps"
    using assms by (simp add: gather_pdf_paths_def)
  have s: "set ?ps = {p \<in> set (map (\<lambda>n. d @ [n]) names). lower (path_suffix p) = ''.pdf''}"
    by auto
  have l: "length ?ps = length (filter (\<lambda>n. lower (path_suffix (d @ [n])) = ''.pdf'') names)"
    by (simp add: filter_map comp_def)
  have o: "sorted (map (normcase (os_flavour w)) ?ps)"
    by (rule sorted_sort_key)
  have suf: "map (\<lambda>n. lower (path_suffix (d @ [n]))) [''B.pdf'', ''a.PDF'', ''c.txt'']
      = [''.pdf'', ''.pdf'', ''.txt'']"
    unfolding path_suffix_def path_name_child by code_simp
  have kept: "?kept = [d @ [''B.pdf''], d @ [''a.PDF'']]" if "names = [''B.pdf'', ''a.PDF'', ''c.txt'']"
    using suf unfolding that by simp
  have lt: "''B.pdf'' < ''a.PDF''" "lower ''a.PDF'' < lower ''B.pdf''"
    by code_simp+
  have posix: "names = [''B.pdf'', ''a.PDF'', ''c.txt''] \<and> os_flavour w = Posix
              \<longrightarrow> ?ps = [d @ [''B.pdf''], d @ [''a.PDF'']]"
  proof
    assume a: "names = [''B.pdf'', ''a.PDF'', ''c.txt''] \<and> os_flavour w = Posix"
    have "d @ [''B.pdf''] \<le> d @ [''a.PDF'']"
      using lt(1) by (induction d) (simp_all add: less_le)
    moreover have fl: "os_flavour w = Posix" using a by simp
    ultimately show "?ps = [d @ [''B.pdf''], d @ [''a.PDF'']]"
      unfolding kept[OF conjunct1[OF a]] fl by (simp add: normcase_def)
  qed
  have windows: "names = [''B.pdf'', ''a.PDF'', ''c.txt''] \<and> os_flavour w = Windows
              \<longrightarrow> ?ps = [d @ [''a.PDF''], d @ [''B.pdf'']]"
  proof
    assume a: "names = [''B.pdf'', ''a.PDF'', ''c.txt''] \<and> os_flavour w = Windows"
    have "map lower d @ [lower ''a.PDF''] < map lower d @ [lower ''B.pdf'']"
      using lt(2) by (induction d) simp_all
    then have "\<not> map lower (d @ [''B.pdf'']) \<le> map lower (d @ [''a.PDF''])"
      by simp
    moreover have fl: "os_flavour w = Windows" using a by simp
    ultimately show "?ps = [d @ [''a.PDF''], d @ [''B.pdf'']]"
      unfolding kept[OF conjunct1[OF a]] fl by (simp add: normcase_def)
  qed
  show ?thesis
    by (intro exI[of _ ?ps] conjI) (rule run s l o posix windows)+
qed

theorem directory_mode_filters_and_sorts_witness:
  "node_at demo_world [''pdfs''] = Some (Directory [''B.pdf'', ''a.PDF'', ''c.txt'']) \<and>
   os_flavour demo_world = Posix \<and>
   gather_pdf_paths demo_world (Some [''pdfs'']) None = Inr [[''pdfs'', ''B.pdf''], [''pdfs'', ''a.PDF'']]"
proof -
  have h: "node_at demo_world [''pdfs''] = Some (Directory [''B.pdf'', ''a.PDF'', ''c.txt''])"
    and fl: "os_flavour demo_world = Posix"
    by (simp_all add: demo_world_def)
  from directory_mode_filters_and_sorts[OF h] fl
  have "gather_pdf_paths demo_world (Some [''pdfs'']) None
          = Inr [[''pdfs''] @ [''B.pdf''], [''pdfs''] @ [''a.PDF'']]"
    by auto
  with h fl show ?thesis by simp
qed

text \<open>
  The order claimed for the example, \<open>a.PDF\<close> before \<open>B.pdf\<close>, is not the one computed on
  POSIX.
\<close>

theorem directory_listing_order_counterexample:
  "node_at demo_world [''pdfs''] = Some (Directory [''B.pdf'', ''a.PDF'', ''c.txt'']) \<and>
   gather_pdf_paths demo_world (Some [''pdfs'']) None = Inr [[''pdfs'', ''B.pdf''], [''pdfs'', ''a.PDF'']] \<and>
   gather_pdf_paths demo_world (Some [''pdfs'']) None \<noteq> Inr [[''pdfs'', ''a.PDF''], [''pdfs'', ''B.pdf'']]"
proof -
  have "gather_pdf_paths demo_world (Some [''pdfs'']) None = Inr [[''pdfs'', ''B.pdf''], [''pdfs'', ''a.PDF'']]"
    by code_simp
  then show ?thesis by (simp add: demo_world_def)
qed

text \<open>
  C6 (as amended).  With neither a directory nor a file the resolver raises \<open>ValueError\<close>,
  whatever the file system holds.  When a file is supplied, the resolver raises
  \<open>FileNotFoundError\<close> if the path does not exist and returns the one-element list of that path
  otherwise; this holds whether or not a directory is supplied as well, since the file is
  examined first.
\<close>

theorem resolver_modes:
  "gather_pdf_paths w None None = Inl ValueError \<and>
   (node_at w f = None \<longrightarrow> gather_pdf_paths w dir (Some f) = Inl FileNotFoundError) \<and>
   (node_at w f \<noteq> None \<longrightarrow> gather_pdf_paths w dir (Some f) = Inr [f])"
  by (simp add: gather_pdf_paths_def)

theorem resolver_modes_witness:
  "node_at demo_world [''missing.pdf''] = None \<and>
   gather_pdf_paths demo_world None (Some [''missing.pdf'']) = Inl FileNotFoundError \<and>
   node_at demo_world [''pdfs'', ''a.PDF''] = Some File \<and>
   gather_pdf_paths demo_world None (Some [''pdfs'', ''a.PDF'']) = Inr [[''pdfs'', ''a.PDF'']] \<and>
   gather_pdf_paths demo_world None None = Inl ValueError"
proof -
  have a: "node_at demo_world [''missing.pdf''] = None"
    and b: "node_at demo_world [''pdfs'', ''a.PDF''] = Some File"
    by (simp_all add: demo_world_def)
  from resolver_modes[of demo_world "[''missing.pdf'']" None] a
  have 1: "gather_pdf_paths demo_world None (Some [''missing.pdf'']) = Inl FileNotFoundError"
    by simp
  from resolver_modes[of demo_world "[''pdfs'', ''a.PDF'']" None] b
  have 2: "gather_pdf_paths demo_world None (Some [''pdfs'', ''a.PDF'']) = Inr [[''pdfs'', ''a.PDF'']]"
    by simp
  from resolver_modes[of demo_world "[]" None]
  have 3: "gather_pdf_paths demo_world None None = Inl ValueError"
    by simp
  from a b 1 2 3 show ?thesis by simp
qed

text \<open>
  With both a directory and a file supplied the resolver does not fail: it resolves the file.
\<close>

theorem both_modes_supplied_counterexample:
  "gather_pdf_paths demo_world (Some [''pdfs'']) (Some [''pdfs'', ''a.PDF''])
     = Inr [[''pdfs'', ''a.PDF'']]"
  by code_simp

text \<open>
  C9.  If the keyword list loaded from the keywords file is empty, or if it is not empty and
  the list of resolved PDF paths is empty, \<open>main\<close> prints one informational line and returns
  at once: it writes no file and no exception ends the run.
\<close>

theorem empty_inputs_return_early:
  "(parse_args a = Inr args \<and> load_keywords w (keywords_file args) = Inr []
      \<longrightarrow> main w a = \<lparr>printed = [''No keywords found in the keywords file.''],
                        written = [], raised = None\<rparr>) \<and>
   (parse_args a = Inr args \<and> load_keywords w (keywords_file args) = Inr kws \<and> kws \<noteq> [] \<and>
    gather_pdf_paths w (pdf_dir args) (pdf_file args) = Inr []
      \<longrightarrow> main w a = \<lparr>printed = [''No PDF files found to search.''],
                        written = [], raised = None\<rparr>)"
  by (simp add: main_def)

theorem empty_inputs_return_early_witness:
  "load_keywords demo_world [''blank.txt''] = Inr [] \<and>
   main demo_world (demo_argv [''pdfs''] [''blank.txt''])
     = \<lparr>printed = [''No keywords found in the keywords file.''], written = [], raised = None\<rparr> \<and>
   load_keywords demo_world [''keywords.txt''] = Inr [''Alpha'', ''beta'', ''gamma''] \<and>
   gather_pdf_paths demo_world (Some [''notes'']) None = Inr [] \<and>
   main demo_world (demo_argv [''notes''] [''keywords.txt''])
     = \<lparr>printed = [''No PDF files found to search.''], written = [], raised = None\<rparr>"
proof -
  let ?args1 = "\<lparr>pdf_dir = Some [''pdfs''], pdf_file = None, keywords_file = [''blank.txt''],
                  output_json = None, output_csv = None, output_dir = Some [''out'']\<rparr>"
  let ?args2 = "\<lparr>pdf_dir = Some [''notes''], pdf_file = None, keywords_file = [''keywords.txt''],
                  output_json = None, output_csv = None, output_dir = Some [''out'']\<rparr>"
  have p1: "parse_args (demo_argv [''pdfs''] [''blank.txt'']) = Inr ?args1"
    and p2: "parse_args (demo_argv [''notes''] [''keywords.txt'']) = Inr ?args2"
    by (simp_all add: parse_args_def demo_argv_def)
  have k1: "load_keywords demo_world [''blank.txt''] = Inr []"
    and k2: "load_keywords demo_world [''keywords.txt''] = Inr [''Alpha'', ''beta'', ''gamma'']"
    and g2: "gather_pdf_paths demo_world (Some [''notes'']) None = Inr []"
    by code_simp+
  from empty_inputs_return_early[of "demo_argv [''pdfs''] [''blank.txt'']" ?args1 demo_world] p1 k1
  have m1: "main demo_world (demo_argv [''pdfs''] [''blank.txt''])
     = \<lparr>printed = [''No keywords found in the keywords file.''], written = [], raised = None\<rparr>"
    by simp
  from empty_inputs_return_early[of "demo_argv [''notes''] [''keywords.txt'']" ?args2 demo_world
      "[''Alpha'', ''beta'', ''gamma'']"] p2 k2 g2
  have m2: "main demo_world (demo_argv [''notes''] [''keywords.txt''])
     = \<lparr>printed = [''No PDF files found to search.''], written = [], raised = None\<rparr>"
    by simp
  from k1 m1 k2 g2 m2 show ?thesis by simp
qed

text \<open>
  C7 (as amended).  For every aggregate result of \<open>run_search\<close> and every writable destination,
  \<open>write_csv\<close> stores there the header followed by one row per pair of a file name and a
  keyword of the aggregate mapping, in its iteration order.  Every file's mapping has one key
  per distinct keyword, so the number of data rows is the number of files in the aggregate times
  the number of distinct keywords.  The third field of a row is the page list joined by a comma
  and a space; splitting it at that separator and reading the pieces as integers gives the page
  list back, the empty field standing for the empty list.
\<close>

theorem csv_rows_of_aggregate:
  assumes "run_search w paths kws = Inr data" and "writable w out_path"
  shows "\<exists>rows.
           write_csv w data out_path files = Inr (AList.update out_path (CsvRows rows) files) \<and>
           hd rows = [''filename'', ''keyword'', ''pages''] \<and>
           (\<forall>x \<in> set data. length (snd x) = card (set kws)) \<and>
           length (tl rows) = length data * card (set kws) \<and>
           map (\<lambda>row. (row ! 0, row ! 1)) (tl rows)
             = concat (map (\<lambda>(fname, mapping). map (\<lambda>(kw, pages). (fname, kw)) mapping) data) \<and>
           map (\<lambda>row. row ! 2) (tl rows)
             = concat (map (\<lambda>(fname, mapping).
                              map (\<lambda>(kw, pages). join '', '' (map str_nat pages)) mapping) data) \<and>
           map (\<lambda>row. pages_of_field (row ! 2)) (tl rows)
             = concat (map (\<lambda>(fname, mapping). map (\<lambda>(kw, pages). Some pages) mapping) data) \<and>
           pages_of_field '''' = Some []"
proof -
  have written: "write_csv w data out_path files
      = Inr (AList.update out_path (CsvRows (csv_rows data)) files)"
    using assms(2) by (simp add: write_csv_def)
  have keys: "\<forall>x \<in> set data. map fst (snd x) = first_occurrences kws"
    using assms(1) run_search_loop_keys[of w paths kws "[]" data] by (simp add: run_search_def)
  have each: "\<forall>x \<in> set data. length (snd x) = card (set kws)"
  proof
    fix x assume "x \<in> set data"
    with keys have "length (map fst (snd x)) = length (first_occurrences kws)" by simp
    then show "length (snd x) = card (set kws)"
      by (simp add: length_first_occurrences)
  qed
  then have count: "length (tl (csv_rows data)) = length data * card (set kws)"
    by (simp add: csv_rows_def case_prod_unfold length_concat_const)
  have names: "map (\<lambda>row. (row ! 0, row ! 1)) (tl (csv_rows data))
           = concat (map (\<lambda>(fname, mapping). map (\<lambda>(kw, pages). (fname, kw)) mapping) data)"
    by (simp add: csv_rows_def map_concat comp_def case_prod_unfold)
  have fields: "map (\<lambda>row. row ! 2) (tl (csv_rows data))
           = concat (map (\<lambda>(fname, mapping).
                            map (\<lambda>(kw, pages). join '', '' (map str_nat pages)) mapping) data)"
    by (simp add: csv_rows_def map_concat comp_def case_prod_unfold)
  have parsed: "map (\<lambda>row. pages_of_field (row ! 2)) (tl (csv_rows data))
           = concat (map (\<lambda>(fname, mapping). map (\<lambda>(kw, pages). Some pages) mapping) data)"
    by (simp add: csv_rows_def map_concat comp_def case_prod_unfold pages_field_roundtrip)
  have header: "hd (csv_rows data) = [''filename'', ''keyword'', ''pages'']"
    by (simp add: csv_rows_def)
  have empty: "pages_of_field '''' = Some []"
    by (simp add: pages_of_field_def)
  show ?thesis
    by (intro exI[of _ "csv_rows data"] conjI)
       (rule written header each count names fields parsed empty)+
qed

theorem csv_rows_of_aggregate_witness:
  "run_search demo_world [[''pdfs'', ''B.pdf''], [''pdfs'', ''a.PDF'']] [''tax'', ''invoice'']
     = Inr [(''B.pdf'', [(''tax'', [1, 3]), (''invoice'', [])]),
            (''a.PDF'', [(''tax'', []), (''invoice'', [2])])] \<and>
   writable demo_world [''out.csv''] \<and>
   write_csv demo_world
       [(''B.pdf'', [(''tax'', [1, 3]), (''invoice'', [])]),
        (''a.PDF'', [(''tax'', []), (''invoice'', [2])])] [''out.csv''] []
     = Inr [([''out.csv''],
             CsvRows [[''filename'', ''keyword'', ''pages''],
                      [''B.pdf'', ''tax'', ''1, 3''], [''B.pdf'', ''invoice'', ''''],
                      [''a.PDF'', ''tax'', ''''], [''a.PDF'', ''invoice'', ''2'']])] \<and>
   pages_of_field ''1, 3'' = Some [1, 3]"
proof -
  let ?data = "[(''B.pdf'', [(''tax'', [1, 3]), (''invoice'', [])]),
                (''a.PDF'', [(''tax'', []), (''invoice'', [2::nat])])]"
  let ?rows = "[[''filename'', ''keyword'', ''pages''],
                [''B.pdf'', ''tax'', ''1, 3''], [''B.pdf'', ''invoice'', ''''],
                [''a.PDF'', ''tax'', ''''], [''a.PDF'', ''invoice'', ''2'']]"
  have h: "run_search demo_world [[''pdfs'', ''B.pdf''], [''pdfs'', ''a.PDF'']] [''tax'', ''invoice'']
     = Inr ?data"
    by code_simp
  have wr: "writable demo_world [''out.csv'']"
    by (simp add: demo_world_def)
  have rows: "csv_rows ?data = ?rows"
    by code_simp
  have field: "pages_of_field ''1, 3'' = Some [1, 3]"
    by code_simp
  from csv_rows_of_aggregate[OF h wr, of "[]"]
  obtain rs where "write_csv demo_world ?data [''out.csv''] []
      = Inr (AList.update [''out.csv''] (CsvRows rs) [])"
    by blast
  moreover have "write_csv demo_world ?data [''out.csv''] []
      = Inr (AList.update [''out.csv''] (CsvRows (csv_rows ?data)) [])"
    using wr by (simp add: write_csv_def)
  ultimately have "write_csv demo_world ?data [''out.csv''] [] = Inr [([''out.csv''], CsvRows ?rows)]"
    by (simp only: rows AList.update.simps)
  with h wr field show ?thesis by simp
qed

text \<open>
  With a keyword supplied twice the number of data rows is not the number of files times the
  number of keywords supplied: two files and the three keywords \<open>tax\<close>, \<open>invoice\<close>, \<open>tax\<close>
  give four data rows, not six.
\<close>

theorem repeated_keyword_row_count:
  "run_search demo_world [[''pdfs'', ''B.pdf''], [''pdfs'', ''a.PDF'']] [''tax'', ''invoice'', ''tax'']
     = Inr [(''B.pdf'', [(''tax'', [1, 3]), (''invoice'', [])]),
            (''a.PDF'', [(''tax'', []), (''invoice'', [2])])] \<and>
   write_csv demo_world
       [(''B.pdf'', [(''tax'', [1, 3]), (''invoice'', [])]),
        (''a.PDF'', [(''tax'', []), (''invoice'', [2])])] [''out.csv''] []
     = Inr [([''out.csv''],
             CsvRows [[''filename'', ''keyword'', ''pages''],
                      [''B.pdf'', ''tax'', ''1, 3''], [''B.pdf'', ''invoice'', ''''],
                      [''a.PDF'', ''tax'', ''''], [''a.PDF'', ''invoice'', ''2'']])] \<and>
   length [[''B.pdf'', ''tax'', ''1, 3''], [''B.pdf'', ''invoice'', ''''],
           [''a.PDF'', ''tax'', ''''], [''a.PDF'', ''invoice'', ''2'']]
     \<noteq> length [[''pdfs'', ''B.pdf''], [''pdfs'', ''a.PDF'']]
         * length [''tax'', ''invoice'', ''tax'']"
proof -
  have "run_search demo_world [[''pdfs'', ''B.pdf''], [''pdfs'', ''a.PDF'']] [''tax'', ''invoice'', ''tax'']
     = Inr [(''B.pdf'', [(''tax'', [1, 3]), (''invoice'', [])]),
            (''a.PDF'', [(''tax'', []), (''invoice'', [2])])]"
    by code_simp
  moreover have "write_csv demo_world
       [(''B.pdf'', [(''tax'', [1, 3]), (''invoice'', [])]),
        (''a.PDF'', [(''tax'', []), (''invoice'', [2])])] [''out.csv''] []
     = Inr [([''out.csv''],
             CsvRows [[''filename'', ''keyword'', ''pages''],
                      [''B.pdf'', ''tax'', ''1, 3''], [''B.pdf'', ''invoice'', ''''],
                      [''a.PDF'', ''tax'', ''''], [''a.PDF'', ''invoice'', ''2'']])]"
    by code_simp
  ultimately show ?thesis by simp
qed

text \<open>
  C8.  Round trip: for every aggregate mapping (a dict of dicts, so with distinct keys at both
  levels, as every result of \<open>run_search\<close> is) and every writable destination, \<open>write_json\<close>
  stores the text of \<open>json.dumps\<close> with an indentation of two, and parsing that text back
  yields the original mapping: the same file names in the same order, the same keywords and the
  same page lists.
\<close>

theorem json_round_trip:
  assumes "distinct (map fst data)"
    and "\<forall>(fname, mapping) \<in> set data. distinct (map fst mapping)"
    and "writable w out_path"
  shows "\<exists>written_text.
           write_json w data out_path files
             = Inr (AList.update out_path (JsonText written_text) files) \<and>
           written_text = json_dumps data \<and>
           json_loads written_text = Some data"
proof -
  have inner: "scan_object scan_list (json_dict json_list l m @ t) = Some (m, t)"
    if "distinct (map fst m)" for l m t
  proof (rule scan_object_json_dict)
    show "distinct (map fst m)" by (rule that)
    show "scan_list (json_list (l + 1) v @ t') = Some (v, t')" for v t'
      by (rule scan_list_json_list)
    show "\<exists>c x. json_list (l + 1) v = c # x \<and> \<not> json_ws c" for v
      by (rule json_list_start)
  qed
  have outer: "scan_object (scan_object scan_list) (json_dict (json_dict json_list) 0 data @ [])
      = Some (data, [])"
  proof (rule scan_object_json_dict)
    show "distinct (map fst data)" by (rule assms(1))
    show "scan_object scan_list (json_dict json_list (0 + 1) v @ t') = Some (v, t')"
      if "(k, v) \<in> set data" for k v t'
      using that assms(2) by (intro inner) blast
    show "\<exists>c x. json_dict json_list (0 + 1) v = c # x \<and> \<not> json_ws c" for v
      by (rule json_dict_start)
  qed
  obtain c x where start: "json_dumps data = c # x" "\<not> json_ws c"
    using json_dict_start[of "json_dict json_list" 0 data] by (auto simp: json_dumps_def)
  have "skip_ws (json_dumps data) = json_dumps data"
    unfolding start(1) using start(2) by (rule skip_ws_keep)
  then have "json_loads (json_dumps data) = Some data"
    using outer by (simp add: json_loads_def json_dumps_def skip_ws_def)
  then show ?thesis
    using assms(3) by (simp add: write_json_def)
qed

theorem json_round_trip_witness:
  "run_search demo_world [[''pdfs'', ''B.pdf''], [''pdfs'', ''a.PDF'']] [''tax'', ''invoice'']
     = Inr [(''B.pdf'', [(''tax'', [1, 3]), (''invoice'', [])]),
            (''a.PDF'', [(''tax'', []), (''invoice'', [2])])] \<and>
   write_json demo_world
       [(''B.pdf'', [(''tax'', [1, 3]), (''invoice'', [])]),
        (''a.PDF'', [(''tax'', []), (''invoice'', [2])])] [''out.json''] []
     = Inr [([''out.json''],
             JsonText (json_dumps [(''B.pdf'', [(''tax'', [1, 3]), (''invoice'', [])]),
                                   (''a.PDF'', [(''tax'', []), (''invoice'', [2])])]))] \<and>
   json_loads (json_dumps [(''B.pdf'', [(''tax'', [1, 3]), (''invoice'', [])]),
                           (''a.PDF'', [(''tax'', []), (''invoice'', [2])])])
     = Some [(''B.pdf'', [(''tax'', [1, 3]), (''invoice'', [])]),
             (''a.PDF'', [(''tax'', []), (''invoice'', [2])])]"
proof -
  let ?data = "[(''B.pdf'', [(''tax'', [1, 3]), (''invoice'', [])]),
                (''a.PDF'', [(''tax'', []), (''invoice'', [2::nat])])]"
  have run: "run_search demo_world [[''pdfs'', ''B.pdf''], [''pdfs'', ''a.PDF'']] [''tax'', ''invoice'']
     = Inr ?data"
    by code_simp
  have d1: "distinct (map fst ?data)"
    and d2: "\<forall>(fname, mapping) \<in> set ?data. distinct (map fst mapping)"
    using run_search_well_formed[OF run] by blast+
  have wr: "writable demo_world [''out.json'']"
    by (simp add: demo_world_def)
  from json_round_trip[OF d1 d2 wr, of "[]"] run show ?thesis
    by simp
qed

end
